theory Spec2Isabelle
  imports Complex_Main "HOL-Library.Product_Lexorder"
begin

section \<open>JavaScript numbers\<close>

text \<open>
  Fares, distances and coordinates arrive as finite numbers and are read as reals. Up to
  section \<open>Rounded sums\<close> the sums of the program are exact sums, which is its own
  arithmetic wherever no sum is rounded (on whole numbers below \<open>2\<^sup>5\<^sup>3\<close>, for one);
  that section puts the double-precision addition in the place of the exact one and
  shows where the two part. The search itself writes \<^verbatim>\<open>Infinity\<close> into its table of
  best costs, and the difference of two infinities is \<^verbatim>\<open>NaN\<close>, so the numbers a
  \<^verbatim>\<open>Cost\<close> holds are modelled with the three special values beside the finite ones.
\<close>

datatype jsnum = Fin real | PInf | NInf | NaN

fun jadd :: "jsnum \<Rightarrow> jsnum \<Rightarrow> jsnum" where
  "jadd (Fin a) (Fin b) = Fin (a + b)"
| "jadd NaN _ = NaN"
| "jadd _ NaN = NaN"
| "jadd PInf NInf = NaN"
| "jadd NInf PInf = NaN"
| "jadd PInf _ = PInf"
| "jadd _ PInf = PInf"
| "jadd NInf _ = NInf"
| "jadd _ NInf = NInf"

fun jneg :: "jsnum \<Rightarrow> jsnum" where
  "jneg (Fin a) = Fin (- a)"
| "jneg PInf = NInf"
| "jneg NInf = PInf"
| "jneg NaN = NaN"

definition jsub :: "jsnum \<Rightarrow> jsnum \<Rightarrow> jsnum" where
  "jsub a b = jadd a (jneg b)"

text \<open>\<^verbatim>\<open>a < b\<close>: every comparison with \<^verbatim>\<open>NaN\<close> is false.\<close>

fun jlt :: "jsnum \<Rightarrow> jsnum \<Rightarrow> bool" where
  "jlt (Fin a) (Fin b) = (a < b)"
| "jlt NaN _ = False"
| "jlt _ NaN = False"
| "jlt _ NInf = False"
| "jlt PInf _ = False"
| "jlt NInf _ = True"
| "jlt _ PInf = True"

text \<open>\<^verbatim>\<open>a !== b\<close>: \<^verbatim>\<open>NaN\<close> differs from everything, itself included.\<close>

definition jneq :: "jsnum \<Rightarrow> jsnum \<Rightarrow> bool" where
  "jneq a b = (a = NaN \<or> b = NaN \<or> a \<noteq> b)"

section \<open>Data model (types)\<close>

text \<open>
  Only the fields that \<^verbatim>\<open>findBestPath\<close> reads are listed; a record's extension slot
  stands for the others (\<^verbatim>\<open>id\<close>, \<^verbatim>\<open>fromCoords\<close>, \<^verbatim>\<open>toCoords\<close>, \<^verbatim>\<open>intermediates\<close>).
  A route's \<^verbatim>\<open>distance\<close> that is \<^verbatim>\<open>undefined\<close> or \<^verbatim>\<open>null\<close> is \<open>None\<close>.
\<close>

record Stop =
  name :: string
  coords :: "real \<times> real"

record Route =
  rfrom :: string
  rto :: string
  rfare :: real
  rdistance :: "real option"

record RouteLeg =
  lfrom :: string
  lto :: string
  lfare :: real
  ldistance :: real

record PathResult =
  rpath :: "string list"
  rlegs :: "RouteLeg list"
  totalFare :: jsnum
  totalDistance :: jsnum
  totalStops :: jsnum

datatype priority = PFare | PDistance | PStops

text \<open>
  What a call can do when it returns: a \<^verbatim>\<open>PathResult\<close>, \<^verbatim>\<open>null\<close>, or the
  \<^verbatim>\<open>TypeError\<close> that reading a field of \<^verbatim>\<open>undefined\<close> throws behind a \<^verbatim>\<open>!\<close>.
\<close>

datatype outcome = Found PathResult | Null | TypeError

section \<open>Haversine distance\<close>

definition toRad :: "real \<Rightarrow> real" where
  "toRad x = (x * pi) / 180"

definition Math_atan2 :: "real \<Rightarrow> real \<Rightarrow> real" where
  "Math_atan2 y x =
     (if 0 < x then arctan (y / x)
      else if x < 0 then (if 0 \<le> y then arctan (y / x) + pi else arctan (y / x) - pi)
      else if 0 < y then pi / 2
      else if y < 0 then - (pi / 2)
      else 0)"

text \<open>
  \<open>hav_A\<close> is the value \<^verbatim>\<open>A\<close> of \<^verbatim>\<open>haversine\<close>, under a name of its own so that
  its bounds can be stated. \<^verbatim>\<open>Math.atan2\<close> is written out for all signs of its arguments.
\<close>

definition hav_A :: "real \<times> real \<Rightarrow> real \<times> real \<Rightarrow> real" where
  "hav_A a b =
     (let lat1 = toRad (fst a); lon1 = toRad (snd a);
          lat2 = toRad (fst b); lon2 = toRad (snd b);
          dLat = lat2 - lat1;
          dLon = lon2 - lon1
      in (sin (dLat / 2))\<^sup>2 + cos lat1 * cos lat2 * (sin (dLon / 2))\<^sup>2)"

definition haversine :: "real \<times> real \<Rightarrow> real \<times> real \<Rightarrow> real" where
  "haversine a b =
     (let R = 6371;
          A = hav_A a b;
          C = 2 * Math_atan2 (sqrt A) (sqrt (1 - A))
      in R * C)"

section \<open>Graph construction\<close>

record Edge =
  eto :: string
  efare :: real
  edistance :: real

definition coordsByName :: "Stop list \<Rightarrow> (string \<rightharpoonup> real \<times> real)" where
  "coordsByName stopsArr = foldl (\<lambda>m s. m(name s \<mapsto> coords s)) Map.empty stopsArr"

text \<open>\<^verbatim>\<open>adj.get(k) ?? []\<close>\<close>

definition edges_at :: "(string \<rightharpoonup> Edge list) \<Rightarrow> string \<Rightarrow> Edge list" where
  "edges_at adj k = (case adj k of None \<Rightarrow> [] | Some es \<Rightarrow> es)"

text \<open>\<^verbatim>\<open>if (!adj.has(k)) adj.set(k, []); adj.get(k)!.push(e)\<close>\<close>

definition push_edge :: "(string \<rightharpoonup> Edge list) \<Rightarrow> string \<Rightarrow> Edge \<Rightarrow> (string \<rightharpoonup> Edge list)" where
  "push_edge adj k e =
     (let adj' = (if adj k = None then adj(k \<mapsto> []) else adj)
      in adj'(k \<mapsto> edges_at adj' k @ [e]))"

text \<open>The body of the loop over \<^verbatim>\<open>routesArr\<close>; \<^verbatim>\<open>continue\<close> leaves the map as it is.\<close>

definition addRoute ::
  "(string \<rightharpoonup> real \<times> real) \<Rightarrow> (string \<rightharpoonup> Edge list) \<Rightarrow> Route \<Rightarrow> (string \<rightharpoonup> Edge list)" where
  "addRoute coordsMap adj r =
     (case coordsMap (rfrom r) of
        None \<Rightarrow> adj
      | Some fromCoords \<Rightarrow>
         (case coordsMap (rto r) of
            None \<Rightarrow> adj
          | Some toCoords \<Rightarrow>
             (let dist = (case rdistance r of Some d \<Rightarrow> d | None \<Rightarrow> haversine fromCoords toCoords);
                  adj1 = push_edge adj (rfrom r) \<lparr>eto = rto r, efare = rfare r, edistance = dist\<rparr>
              in push_edge adj1 (rto r) \<lparr>eto = rfrom r, efare = rfare r, edistance = dist\<rparr>)))"

definition buildAdj :: "Stop list \<Rightarrow> Route list \<Rightarrow> (string \<rightharpoonup> Edge list)" where
  "buildAdj stopsArr routesArr = foldl (addRoute (coordsByName stopsArr)) Map.empty routesArr"

section \<open>Costs and their comparison\<close>

record Cost =
  fare :: jsnum
  stops :: jsnum
  distance :: jsnum

definition infCost :: Cost where
  "infCost = \<lparr>fare = PInf, stops = PInf, distance = PInf\<rparr>"

definition zeroCost :: Cost where
  "zeroCost = \<lparr>fare = Fin 0, stops = Fin 0, distance = Fin 0\<rparr>"

definition cmpCost :: "priority \<Rightarrow> Cost \<Rightarrow> Cost \<Rightarrow> jsnum" where
  "cmpCost p a b =
     (case p of
        PFare \<Rightarrow>
          if jneq (fare a) (fare b) then jsub (fare a) (fare b)
          else if jneq (stops a) (stops b) then jsub (stops a) (stops b)
          else jsub (distance a) (distance b)
      | PDistance \<Rightarrow>
          if jneq (distance a) (distance b) then jsub (distance a) (distance b)
          else if jneq (fare a) (fare b) then jsub (fare a) (fare b)
          else jsub (stops a) (stops b)
      | PStops \<Rightarrow>
          if jneq (stops a) (stops b) then jsub (stops a) (stops b)
          else if jneq (fare a) (fare b) then jsub (fare a) (fare b)
          else jsub (distance a) (distance b))"

section \<open>The search\<close>

record Node =
  node :: string
  path :: "string list"
  legs :: "RouteLeg list"
  cost :: Cost

text \<open>
  \<^verbatim>\<open>pq.sort((A, B) => cmpCost(A.cost, B.cost))\<close>: the sort is stable, so among records
  that compare equal the one that entered the array first stays first.
\<close>

fun insort_node :: "priority \<Rightarrow> Node \<Rightarrow> Node list \<Rightarrow> Node list" where
  "insort_node p x [] = [x]"
| "insort_node p x (y # ys) =
     (if jlt (Fin 0) (cmpCost p (cost x) (cost y)) then y # insort_node p x ys
      else x # y # ys)"

fun sort_pq :: "priority \<Rightarrow> Node list \<Rightarrow> Node list" where
  "sort_pq p [] = []"
| "sort_pq p (x # xs) = insort_node p x (sort_pq p xs)"

text \<open>The body of the loop over the neighbours of \<open>current\<close>.\<close>

definition relax ::
  "priority \<Rightarrow> Node \<Rightarrow> Node list \<times> (string \<rightharpoonup> Cost) \<Rightarrow> Edge \<Rightarrow> Node list \<times> (string \<rightharpoonup> Cost)" where
  "relax p current st edge =
     (case st of (pq, best) \<Rightarrow>
        (let nextName = eto edge;
             newCost = \<lparr>fare = jadd (fare (cost current)) (Fin (efare edge)),
                        stops = jadd (stops (cost current)) (Fin 1),
                        distance = jadd (distance (cost current)) (Fin (edistance edge))\<rparr>;
             bestForNext = (case best nextName of Some c \<Rightarrow> c | None \<Rightarrow> infCost)
         in if jlt (cmpCost p newCost bestForNext) (Fin 0)
            then (let newLeg = \<lparr>lfrom = node current, lto = nextName,
                                 lfare = efare edge, ldistance = edistance edge\<rparr>
                  in (pq @ [\<lparr>node = nextName, path = path current @ [nextName],
                              legs = legs current @ [newLeg], cost = newCost\<rparr>],
                      best(nextName \<mapsto> newCost)))
            else (pq, best)))"

text \<open>
  The \<^verbatim>\<open>while (pq.length > 0)\<close> loop. It may run forever, so not returning is the
  value \<open>None\<close>.
\<close>

partial_function (option) search ::
  "(string \<rightharpoonup> Edge list) \<Rightarrow> priority \<Rightarrow> string \<Rightarrow> Node list \<Rightarrow> (string \<rightharpoonup> Cost) \<Rightarrow> outcome option" where
  "search adj p endName pq best =
     (case sort_pq p pq of
        [] \<Rightarrow> Some Null
      | current # rest \<Rightarrow>
         (case best (node current) of
            None \<Rightarrow> Some TypeError
          | Some currentBest \<Rightarrow>
             if jlt (Fin 0) (cmpCost p (cost current) currentBest) then search adj p endName rest best
             else if node current = endName then
               Some (Found \<lparr>rpath = path current, rlegs = legs current,
                             totalFare = fare (cost current),
                             totalDistance = distance (cost current),
                             totalStops = stops (cost current)\<rparr>)
             else
               (case foldl (relax p current) (rest, best) (edges_at adj (node current)) of
                  (pq', best') \<Rightarrow> search adj p endName pq' best')))"

definition initBest :: "Stop list \<Rightarrow> string \<Rightarrow> (string \<rightharpoonup> Cost)" where
  "initBest stopsArr start =
     (foldl (\<lambda>b s. b(name s \<mapsto> infCost)) Map.empty stopsArr)(start \<mapsto> zeroCost)"

definition findBestPath ::
  "Stop list \<Rightarrow> Route list \<Rightarrow> string \<Rightarrow> string \<Rightarrow> priority \<Rightarrow> outcome option" where
  "findBestPath stopsArr routesArr start endName p =
     (if start = endName then
        Some (Found \<lparr>rpath = [start], rlegs = [], totalFare = Fin 0, totalDistance = Fin 0,
                      totalStops = Fin 0\<rparr>)
      else
        search (buildAdj stopsArr routesArr) p endName
          [\<lparr>node = start, path = [start], legs = [], cost = zeroCost\<rparr>]
          (initBest stopsArr start))"

section \<open>The degenerate query\<close>

text \<open>
  C3. When the start name equals the end name, \<open>findBestPath\<close> returns the result with
  the one-stop path, no legs, and all three totals zero, whatever the stops, routes and
  priority are.
\<close>

theorem findBestPath_same_stop:
  "findBestPath stopsArr routesArr start start p =
     Some (Found \<lparr>rpath = [start], rlegs = [], totalFare = Fin 0, totalDistance = Fin 0,
                   totalStops = Fin 0\<rparr>)"
  by (simp add: findBestPath_def)

section \<open>The comparison of costs\<close>

text \<open>
  The order of the keys as the specification tabulates it, and its reading of "the first
  differing key is smaller": keys differ when \<^verbatim>\<open>!==\<close> says so and are compared by
  \<^verbatim>\<open><\<close>.
\<close>

definition key_seq :: "priority \<Rightarrow> Cost \<Rightarrow> jsnum list" where
  "key_seq p c =
     (case p of
        PFare \<Rightarrow> [fare c, stops c, distance c]
      | PDistance \<Rightarrow> [distance c, fare c, stops c]
      | PStops \<Rightarrow> [stops c, fare c, distance c])"

fun first_diff_smaller :: "jsnum list \<Rightarrow> jsnum list \<Rightarrow> bool" where
  "first_diff_smaller (x # xs) (y # ys) = (if jneq x y then jlt x y else first_diff_smaller xs ys)"
| "first_diff_smaller _ _ = False"



lemma jsub_neg_iff: "jlt (jsub x y) (Fin 0) = jlt x y"
  by (cases x; cases y) (simp_all add: jsub_def)

lemma jsub_pos_iff: "jlt (Fin 0) (jsub x y) = jlt y x"
  by (cases x; cases y) (simp_all add: jsub_def)


lemma not_jneq_not_jlt: "\<not> jneq x y \<Longrightarrow> \<not> jlt x y"
  by (cases x; cases y) (simp_all add: jneq_def)




section \<open>The haversine formula\<close>

text \<open>
  The textbook great-circle distance on a sphere of radius \<open>R\<close>, between two points
  given in degrees: \<open>2 R arcsin (sqrt h)\<close> with
  \<open>h = hav (\<phi>\<^sub>2 - \<phi>\<^sub>1) + cos \<phi>\<^sub>1 cos \<phi>\<^sub>2 hav (\<lambda>\<^sub>2 - \<lambda>\<^sub>1)\<close>.
\<close>

definition hav :: "real \<Rightarrow> real" where
  "hav t = (sin (t / 2))\<^sup>2"

definition great_circle_km :: "real \<Rightarrow> real \<times> real \<Rightarrow> real \<times> real \<Rightarrow> real" where
  "great_circle_km R a b =
     (let phi1 = fst a * pi / 180; phi2 = fst b * pi / 180;
          lam1 = snd a * pi / 180; lam2 = snd b * pi / 180
      in 2 * R * arcsin (sqrt (hav (phi2 - phi1) + cos phi1 * cos phi2 * hav (lam2 - lam1))))"

lemma cos_prod_bounds:
  fixes x y :: real
  shows "- (sin ((y - x) / 2))\<^sup>2 \<le> cos x * cos y"
    and "cos x * cos y \<le> 1 - (sin ((y - x) / 2))\<^sup>2"
proof -
  have c: "cos x * cos y = (cos (x - y) + cos (x + y)) / 2"
    by (rule cos_times_cos)
  have e: "y - x = 2 * ((y - x) / 2)" by (simp add: field_simps)
  have "cos (x - y) = cos (- (y - x))" by simp
  also have "\<dots> = cos (y - x)" by (simp only: cos_minus)
  also have "\<dots> = cos (2 * ((y - x) / 2))" by (rule arg_cong [OF e])
  also have "\<dots> = 1 - 2 * (sin ((y - x) / 2))\<^sup>2" by (rule cos_double_sin)
  finally have d: "cos (x - y) = 1 - 2 * (sin ((y - x) / 2))\<^sup>2" .
  have b: "- 1 \<le> cos (x + y)" "cos (x + y) \<le> 1" by simp_all
  have lin: "- S \<le> P \<and> P \<le> 1 - S"
    if "P = (D + Q) / 2" "D = 1 - 2 * S" "- 1 \<le> Q" "Q \<le> 1" for P D Q S :: real
    using that by auto
  from lin [OF c d b] show "- (sin ((y - x) / 2))\<^sup>2 \<le> cos x * cos y"
    and "cos x * cos y \<le> 1 - (sin ((y - x) / 2))\<^sup>2"
    by blast+
qed

lemma hav_bounds_general:
  fixes s c t :: real
  assumes "- s\<^sup>2 \<le> c" "c \<le> 1 - s\<^sup>2" "t\<^sup>2 \<le> 1" "s\<^sup>2 \<le> 1"
  shows "0 \<le> s\<^sup>2 + c * t\<^sup>2" and "s\<^sup>2 + c * t\<^sup>2 \<le> 1"
proof -
  have t0: "0 \<le> t\<^sup>2" and s0: "0 \<le> s\<^sup>2" by simp_all
  have "(- s\<^sup>2) * t\<^sup>2 \<le> c * t\<^sup>2"
    using assms(1) t0 by (rule mult_right_mono)
  moreover have "s\<^sup>2 * t\<^sup>2 \<le> s\<^sup>2 * 1"
    using assms(3) s0 by (rule mult_left_mono)
  ultimately show "0 \<le> s\<^sup>2 + c * t\<^sup>2" by simp
  have "c * t\<^sup>2 \<le> (1 - s\<^sup>2) * t\<^sup>2"
    using assms(2) t0 by (rule mult_right_mono)
  moreover have "0 \<le> 1 - s\<^sup>2" using assms(4) by simp
  then have "(1 - s\<^sup>2) * t\<^sup>2 \<le> (1 - s\<^sup>2) * 1"
    using assms(3) by (intro mult_left_mono)
  ultimately show "s\<^sup>2 + c * t\<^sup>2 \<le> 1" by simp
qed

lemma sin_sq_le_1: "(sin (x::real))\<^sup>2 \<le> 1"
  using abs_sin_le_one [of x] by (simp add: abs_square_le_1)

text \<open>
  In exact arithmetic both square roots that \<open>haversine\<close> takes are of numbers between
  0 and 1. The program computes \<open>A\<close> in double precision and does not clamp it: for two
  stops that are antipodal, or nearly so, the rounded \<open>A\<close> can exceed 1 by one unit in
  the last place, \<^verbatim>\<open>Math.sqrt(1 - A)\<close> is then \<^verbatim>\<open>NaN\<close>, and so is the distance returned.
  The lemmas of this section are about the formula, and about the program for stops
  that are not that far apart.
\<close>

lemma hav_A_range: "0 \<le> hav_A a b \<and> hav_A a b \<le> 1"
  unfolding hav_A_def Let_def
  using hav_bounds_general [OF cos_prod_bounds(1) [where x = "toRad (fst a)" and y = "toRad (fst b)"]
          cos_prod_bounds(2) [where x = "toRad (fst a)" and y = "toRad (fst b)"]
          sin_sq_le_1 [of "(toRad (snd b) - toRad (snd a)) / 2"]
          sin_sq_le_1 [of "(toRad (fst b) - toRad (fst a)) / 2"]]
  by simp

lemma atan2_sqrt_arcsin:
  assumes "0 \<le> h" "h \<le> 1"
  shows "Math_atan2 (sqrt h) (sqrt (1 - h)) = arcsin (sqrt h)"
proof (cases "h = 1")
  case True
  then show ?thesis by (simp add: Math_atan2_def)
next
  case False
  with assms have h: "h < 1" by simp
  then have pos: "0 < sqrt (1 - h)" by simp
  have "sqrt h < 1" using h assms(1) by simp
  moreover have "- 1 < sqrt h" using assms(1) by (smt (verit) real_sqrt_ge_zero)
  ultimately have "arcsin (sqrt h) = arctan (sqrt h / sqrt (1 - (sqrt h)\<^sup>2))"
    by (intro arcsin_arctan)
  with assms(1) pos show ?thesis by (simp add: Math_atan2_def)
qed

lemma haversine_great_circle: "haversine a b = great_circle_km 6371 a b"
proof -
  have "hav_A a b = hav (fst b * pi / 180 - fst a * pi / 180) +
          cos (fst a * pi / 180) * cos (fst b * pi / 180) * hav (snd b * pi / 180 - snd a * pi / 180)"
    by (simp add: hav_A_def hav_def toRad_def Let_def)
  moreover have "haversine a b = 6371 * (2 * arcsin (sqrt (hav_A a b)))"
    using hav_A_range [of a b] by (simp add: haversine_def Let_def atan2_sqrt_arcsin)
  ultimately show ?thesis by (simp add: great_circle_km_def Let_def)
qed


lemma haversine_nonneg: "0 \<le> haversine a b"
proof -
  have "0 \<le> sqrt (hav_A a b)" "sqrt (hav_A a b) \<le> 1"
    using hav_A_range [of a b] by simp_all
  then have "0 \<le> arcsin (sqrt (hav_A a b))"
    using arcsin_le_arcsin [of 0 "sqrt (hav_A a b)"] by simp
  then show ?thesis
    using hav_A_range [of a b] by (simp add: haversine_def Let_def atan2_sqrt_arcsin)
qed



section \<open>The edges a route contributes\<close>

text \<open>
  What the specification says one route adds to the list of edges leaving stop \<open>u\<close>:
  nothing when one of its names is not a stop; otherwise the edge to its destination when
  \<open>u\<close> is its origin, and the edge to its origin when \<open>u\<close> is its destination, both
  with the route's fare and the same distance.
\<close>

definition route_distance :: "Route \<Rightarrow> real \<times> real \<Rightarrow> real \<times> real \<Rightarrow> real" where
  "route_distance r a b = (case rdistance r of Some d \<Rightarrow> d | None \<Rightarrow> haversine a b)"

definition route_edges :: "(string \<rightharpoonup> real \<times> real) \<Rightarrow> string \<Rightarrow> Route \<Rightarrow> Edge list" where
  "route_edges coordsMap u r =
     (case coordsMap (rfrom r) of
        None \<Rightarrow> []
      | Some a \<Rightarrow>
         (case coordsMap (rto r) of
            None \<Rightarrow> []
          | Some b \<Rightarrow>
             (if rfrom r = u
              then [\<lparr>eto = rto r, efare = rfare r, edistance = route_distance r a b\<rparr>] else []) @
             (if rto r = u
              then [\<lparr>eto = rfrom r, efare = rfare r, edistance = route_distance r a b\<rparr>] else [])))"

lemma edges_at_empty: "edges_at Map.empty u = []"
  by (simp add: edges_at_def)

lemma edges_at_push_edge:
  "edges_at (push_edge adj k e) u = (if u = k then edges_at adj k @ [e] else edges_at adj u)"
  by (simp add: push_edge_def edges_at_def Let_def)

lemma edges_at_addRoute:
  "edges_at (addRoute coordsMap adj r) u = edges_at adj u @ route_edges coordsMap u r"
  by (simp add: addRoute_def route_edges_def route_distance_def edges_at_push_edge Let_def
           split: option.splits)

lemma edges_at_foldl_addRoute:
  "edges_at (foldl (addRoute coordsMap) adj rs) u =
     edges_at adj u @ concat (map (route_edges coordsMap u) rs)"
  by (induction rs arbitrary: adj) (simp_all add: edges_at_addRoute)

lemma edges_at_buildAdj:
  "edges_at (buildAdj stopsArr routesArr) u =
     concat (map (route_edges (coordsByName stopsArr) u) routesArr)"
  by (simp add: buildAdj_def edges_at_foldl_addRoute edges_at_empty)

lemma dom_foldl_set_coords:
  "dom (foldl (\<lambda>m s. m(name s \<mapsto> coords s)) m0 ss) = dom m0 \<union> name ` set ss"
  by (induction ss arbitrary: m0) auto

text \<open>A name resolves exactly when a stop of the list has it.\<close>

lemma coordsByName_dom: "dom (coordsByName stopsArr) = name ` set stopsArr"
  by (simp add: coordsByName_def dom_foldl_set_coords)

text \<open>
  C5. The list of edges that leave any stop \<open>u\<close> in the adjacency structure is the
  concatenation, route by route in the order of the route list, of what each route
  contributes: for a route whose two names resolve, one edge from its origin to its
  destination and one from its destination to its origin, with the route's fare and one
  common distance; for a route with a name that does not resolve, nothing.
\<close>

theorem buildAdj_two_edges_per_route:
  "edges_at (buildAdj stopsArr routesArr) u =
     concat (map (route_edges (coordsByName stopsArr) u) routesArr)"
  by (rule edges_at_buildAdj)

theorem buildAdj_two_edges_per_route_witness:
  "edges_at (buildAdj [\<lparr>name = ''A'', coords = (0, 0)\<rparr>, \<lparr>name = ''B'', coords = (0, 1)\<rparr>]
       [\<lparr>rfrom = ''A'', rto = ''B'', rfare = 2, rdistance = Some 7\<rparr>,
        \<lparr>rfrom = ''A'', rto = ''Z'', rfare = 1, rdistance = Some 1\<rparr>]) ''A''
     = [\<lparr>eto = ''B'', efare = 2, edistance = 7\<rparr>] \<and>
   edges_at (buildAdj [\<lparr>name = ''A'', coords = (0, 0)\<rparr>, \<lparr>name = ''B'', coords = (0, 1)\<rparr>]
       [\<lparr>rfrom = ''A'', rto = ''B'', rfare = 2, rdistance = Some 7\<rparr>,
        \<lparr>rfrom = ''A'', rto = ''Z'', rfare = 1, rdistance = Some 1\<rparr>]) ''B''
     = [\<lparr>eto = ''A'', efare = 2, edistance = 7\<rparr>] \<and>
   edges_at (buildAdj [\<lparr>name = ''A'', coords = (0, 0)\<rparr>, \<lparr>name = ''B'', coords = (0, 1)\<rparr>]
       [\<lparr>rfrom = ''A'', rto = ''B'', rfare = 2, rdistance = Some 7\<rparr>,
        \<lparr>rfrom = ''A'', rto = ''Z'', rfare = 1, rdistance = Some 1\<rparr>]) ''Z''
     = []"
  by (simp add: buildAdj_two_edges_per_route route_edges_def route_distance_def coordsByName_def)

section \<open>The shape of a result\<close>

text \<open>
  The cost of a list of legs: the sum of the fares, the number of legs, the sum of the
  distances.
\<close>

definition legsCost :: "RouteLeg list \<Rightarrow> Cost" where
  "legsCost ls = \<lparr>fare = Fin (sum_list (map lfare ls)), stops = Fin (real (length ls)),
                  distance = Fin (sum_list (map ldistance ls))\<rparr>"

definition node_shape :: "Node \<Rightarrow> bool" where
  "node_shape e = (length (path e) = length (legs e) + 1 \<and> cost e = legsCost (legs e))"

definition result_shape :: "PathResult \<Rightarrow> bool" where
  "result_shape r =
     (length (rpath r) = length (rlegs r) + 1 \<and>
      \<lparr>fare = totalFare r, stops = totalStops r, distance = totalDistance r\<rparr> = legsCost (rlegs r))"

lemma set_insort_node: "set (insort_node p x ys) = insert x (set ys)"
  by (induction ys) auto

lemma set_sort_pq: "set (sort_pq p xs) = set xs"
  by (induction xs) (simp_all add: set_insort_node)

lemma length_insort_node: "length (insort_node p x ys) = Suc (length ys)"
  by (induction ys) auto

lemma length_sort_pq: "length (sort_pq p xs) = length xs"
  by (induction xs) (simp_all add: length_insort_node)

text \<open>The parts of \<open>relax\<close> under names: the new cost, the pushed record, the test.\<close>

definition stepCost :: "Cost \<Rightarrow> Edge \<Rightarrow> Cost" where
  "stepCost c ed = \<lparr>fare = jadd (fare c) (Fin (efare ed)), stops = jadd (stops c) (Fin 1),
                     distance = jadd (distance c) (Fin (edistance ed))\<rparr>"

definition extendNode :: "Node \<Rightarrow> Edge \<Rightarrow> Node" where
  "extendNode cur ed =
     \<lparr>node = eto ed, path = path cur @ [eto ed],
      legs = legs cur @ [\<lparr>lfrom = node cur, lto = eto ed, lfare = efare ed,
                          ldistance = edistance ed\<rparr>],
      cost = stepCost (cost cur) ed\<rparr>"

definition improves :: "priority \<Rightarrow> Node \<Rightarrow> (string \<rightharpoonup> Cost) \<Rightarrow> Edge \<Rightarrow> bool" where
  "improves p cur best ed =
     jlt (cmpCost p (stepCost (cost cur) ed)
            (case best (eto ed) of Some c \<Rightarrow> c | None \<Rightarrow> infCost)) (Fin 0)"

lemma relax_eq:
  "relax p cur (pq, best) ed =
     (if improves p cur best ed
      then (pq @ [extendNode cur ed], best(eto ed \<mapsto> stepCost (cost cur) ed))
      else (pq, best))"
  by (simp add: relax_def improves_def extendNode_def stepCost_def Let_def)

lemma relax_shape:
  assumes "node_shape cur" "\<forall>e\<in>set pq. node_shape e"
  shows "\<forall>e\<in>set (fst (relax p cur (pq, best) ed)). node_shape e"
  using assms by (auto simp: relax_eq extendNode_def stepCost_def node_shape_def legsCost_def)

lemma foldl_relax_shape:
  assumes "node_shape cur" "\<forall>e\<in>set pq. node_shape e"
  shows "\<forall>e\<in>set (fst (foldl (relax p cur) (pq, best) es)). node_shape e"
  using assms(2)
proof (induction es arbitrary: pq best)
  case Nil
  then show ?case by simp
next
  case (Cons ed es)
  obtain pq1 best1 where r: "relax p cur (pq, best) ed = (pq1, best1)"
    by (cases "relax p cur (pq, best) ed")
  with relax_shape [OF assms(1) Cons.prems, of p best ed] have "\<forall>e\<in>set pq1. node_shape e"
    by simp
  from Cons.IH [OF this] r show ?case by simp
qed

lemma search_shape:
  "search adj p endName pq best = Some y \<Longrightarrow> \<forall>e\<in>set pq. node_shape e \<Longrightarrow> y = Found r \<Longrightarrow>
   result_shape r"
proof (induction arbitrary: r rule: search.raw_induct [rotated 1, consumes 1, case_names step])
  case (step search adj p endName pq best y)
  note shape = \<open>\<forall>e\<in>set pq. node_shape e\<close> and found = \<open>y = Found r\<close>
  show ?case
  proof (cases "sort_pq p pq")
    case Nil
    with step.hyps found show ?thesis by simp
  next
    case (Cons current rest)
    have cur: "node_shape current" and rest: "\<forall>e\<in>set rest. node_shape e"
      using shape set_sort_pq [of p pq] Cons by auto
    show ?thesis
    proof (cases "best (node current)")
      case None
      with step.hyps found Cons show ?thesis by simp
    next
      case (Some currentBest)
      note eq = step.hyps Cons Some
      show ?thesis
      proof (cases "jlt (Fin 0) (cmpCost p (cost current) currentBest)")
        case True
        with eq have "search adj p endName rest best = Some y" by simp
        from step.IH [OF this rest found] show ?thesis .
      next
        case False
        show ?thesis
        proof (cases "node current = endName")
          case True
          with eq False found cur show ?thesis
            by (auto simp: result_shape_def node_shape_def)
        next
          case ne: False
          obtain pq1 best1 where f:
            "foldl (relax p current) (rest, best) (edges_at adj (node current)) = (pq1, best1)"
            by (cases "foldl (relax p current) (rest, best) (edges_at adj (node current))")
          with foldl_relax_shape [OF cur rest, of p best "edges_at adj (node current)"]
          have sh: "\<forall>e\<in>set pq1. node_shape e" by simp
          from eq False ne f have "search adj p endName pq1 best1 = Some y" by simp
          from step.IH [OF this sh found] show ?thesis .
        qed
      qed
    qed
  qed
qed


lemma findBestPath_result_shape:
  assumes "findBestPath stopsArr routesArr start endName p = Some (Found r)"
  shows "result_shape r"
proof (cases "start = endName")
  case True
  with assms show ?thesis
    by (auto simp: findBestPath_def result_shape_def legsCost_def)
next
  case False
  with assms have
    "search (buildAdj stopsArr routesArr) p endName
       [\<lparr>node = start, path = [start], legs = [], cost = zeroCost\<rparr>]
       (initBest stopsArr start) = Some (Found r)"
    by (simp add: findBestPath_def)
  then show ?thesis
    by (rule search_shape) (simp_all add: node_shape_def legsCost_def zeroCost_def)
qed

text \<open>The scenario of the specification, with declared distances.\<close>

definition scenario_stops :: "Stop list" where
  "scenario_stops = [\<lparr>name = ''A'', coords = (0, 0)\<rparr>, \<lparr>name = ''B'', coords = (0, 1)\<rparr>,
                     \<lparr>name = ''C'', coords = (0, 2)\<rparr>]"

definition scenario_routes :: "Route list" where
  "scenario_routes = [\<lparr>rfrom = ''A'', rto = ''B'', rfare = 1, rdistance = Some 3\<rparr>,
                      \<lparr>rfrom = ''B'', rto = ''C'', rfare = 1, rdistance = Some 4\<rparr>,
                      \<lparr>rfrom = ''A'', rto = ''C'', rfare = 5, rdistance = Some 6\<rparr>]"

lemmas search_eval_simps =
  findBestPath_def search.simps edges_at_buildAdj route_edges_def route_distance_def
  coordsByName_def initBest_def relax_def cmpCost_def zeroCost_def infCost_def jneq_def jsub_def
  Let_def

lemma scenario_fare:
  "findBestPath scenario_stops scenario_routes ''A'' ''C'' PFare =
     Some (Found \<lparr>rpath = [''A'', ''B'', ''C''],
       rlegs = [\<lparr>lfrom = ''A'', lto = ''B'', lfare = 1, ldistance = 3\<rparr>,
                \<lparr>lfrom = ''B'', lto = ''C'', lfare = 1, ldistance = 4\<rparr>],
       totalFare = Fin 2, totalDistance = Fin 7, totalStops = Fin 2\<rparr>)"
  by (simp add: scenario_stops_def scenario_routes_def search_eval_simps)


text \<open>
  C7. In every result that \<open>findBestPath\<close> returns, the number of legs is the number of
  path entries minus one, and \<open>totalStops\<close> is the number of legs.
\<close>

theorem findBestPath_legs_count:
  assumes "findBestPath stopsArr routesArr start endName p = Some (Found r)"
  shows "int (length (rlegs r)) = int (length (rpath r)) - 1 \<and>
         totalStops r = Fin (real (length (rlegs r)))"
  using findBestPath_result_shape [OF assms]
  by (simp add: result_shape_def legsCost_def)

theorem findBestPath_legs_count_witness:
  "findBestPath scenario_stops scenario_routes ''A'' ''C'' PFare =
     Some (Found \<lparr>rpath = [''A'', ''B'', ''C''],
       rlegs = [\<lparr>lfrom = ''A'', lto = ''B'', lfare = 1, ldistance = 3\<rparr>,
                \<lparr>lfrom = ''B'', lto = ''C'', lfare = 1, ldistance = 4\<rparr>],
       totalFare = Fin 2, totalDistance = Fin 7, totalStops = Fin 2\<rparr>) \<and>
   int (length [\<lparr>lfrom = ''A'', lto = ''B'', lfare = 1, ldistance = 3\<rparr>,
                \<lparr>lfrom = ''B'', lto = ''C'', lfare = 1, ldistance = 4\<rparr>])
     = int (length [''A'', ''B'', ''C'']) - 1 \<and>
   Fin 2 = Fin (real (length [\<lparr>lfrom = ''A'', lto = ''B'', lfare = 1, ldistance = 3\<rparr>,
                              \<lparr>lfrom = ''B'', lto = ''C'', lfare = 1, ldistance = 4\<rparr>]))"
  using findBestPath_legs_count [OF scenario_fare] scenario_fare by simp



section \<open>The search as a shortest-path computation\<close>

text \<open>
  A finite cost is read as a triple of reals in the order of the priority's keys, and
  triples are compared lexicographically. On finite costs \<open>cmpCost\<close> decides exactly
  this order.
\<close>

type_synonym key = "real \<times> real \<times> real"

definition num :: "jsnum \<Rightarrow> real" where
  "num x = (case x of Fin r \<Rightarrow> r | _ \<Rightarrow> 0)"

definition is_fin :: "jsnum \<Rightarrow> bool" where
  "is_fin x = (case x of Fin _ \<Rightarrow> True | _ \<Rightarrow> False)"

definition finite_cost :: "Cost \<Rightarrow> bool" where
  "finite_cost c = (is_fin (fare c) \<and> is_fin (stops c) \<and> is_fin (distance c))"

definition tkey :: "priority \<Rightarrow> real \<Rightarrow> real \<Rightarrow> real \<Rightarrow> key" where
  "tkey p f n d = (case p of PFare \<Rightarrow> (f, n, d) | PDistance \<Rightarrow> (d, f, n) | PStops \<Rightarrow> (n, f, d))"

definition ckey :: "priority \<Rightarrow> Cost \<Rightarrow> key" where
  "ckey p c = tkey p (num (fare c)) (num (stops c)) (num (distance c))"

definition ekey :: "priority \<Rightarrow> Edge \<Rightarrow> key" where
  "ekey p e = tkey p (efare e) 1 (edistance e)"

definition kadd :: "key \<Rightarrow> key \<Rightarrow> key" where
  "kadd a b = (fst a + fst b, fst (snd a) + fst (snd b), snd (snd a) + snd (snd b))"

definition bkey :: "priority \<Rightarrow> (string \<rightharpoonup> Cost) \<Rightarrow> string \<Rightarrow> key option" where
  "bkey p best v =
     (case best v of Some c \<Rightarrow> if finite_cost c then Some (ckey p c) else None | None \<Rightarrow> None)"

lemma is_fin_iff: "is_fin x \<longleftrightarrow> (\<exists>r. x = Fin r)"
  by (cases x) (simp_all add: is_fin_def)

lemma finite_cost_iff:
  "finite_cost c \<longleftrightarrow> (\<exists>f n d. fare c = Fin f \<and> stops c = Fin n \<and> distance c = Fin d)"
  by (auto simp: finite_cost_def is_fin_iff)

lemma cmp_lt_finite:
  assumes "finite_cost a" "finite_cost b"
  shows "jlt (cmpCost p a b) (Fin 0) = (ckey p a < ckey p b)"
  using assms
  by (cases p) (auto simp: finite_cost_iff cmpCost_def ckey_def tkey_def num_def jneq_def jsub_def)

lemma cmp_gt_finite:
  assumes "finite_cost a" "finite_cost b"
  shows "jlt (Fin 0) (cmpCost p a b) = (ckey p b < ckey p a)"
  using assms
  by (cases p) (auto simp: finite_cost_iff cmpCost_def ckey_def tkey_def num_def jneq_def jsub_def)

lemma cmp_lt_inf:
  assumes "finite_cost a"
  shows "jlt (cmpCost p a infCost) (Fin 0)"
  using assms
  by (cases p) (auto simp: finite_cost_iff cmpCost_def infCost_def jneq_def jsub_def)

lemma stepCost_finite: "finite_cost c \<Longrightarrow> finite_cost (stepCost c ed)"
  by (auto simp: finite_cost_iff stepCost_def)

lemma ckey_stepCost: "finite_cost c \<Longrightarrow> ckey p (stepCost c ed) = kadd (ckey p c) (ekey p ed)"
  by (cases p) (auto simp: finite_cost_iff stepCost_def ckey_def ekey_def tkey_def kadd_def num_def)

lemma kadd_strict:
  assumes "0 \<le> efare ed" "0 \<le> edistance ed"
  shows "k < kadd k (ekey p ed)"
  using assms by (cases p; cases k) (auto simp: kadd_def ekey_def tkey_def)

lemma kadd_mono: "a \<le> b \<Longrightarrow> kadd a c \<le> kadd b c"
  by (cases a; cases b; cases c) (auto simp: kadd_def)

lemma ckey_inj:
  assumes "finite_cost a" "finite_cost b" "ckey p a = ckey p b"
  shows "a = b"
  using assms
  by (cases p; cases a; cases b) (auto simp: finite_cost_iff ckey_def tkey_def num_def)

lemma tkey_zero: "tkey p 0 0 0 = (0, 0, 0)"
  by (cases p) (simp_all add: tkey_def)


definition leg_edge :: "RouteLeg \<Rightarrow> Edge" where
  "leg_edge l = \<lparr>eto = lto l, efare = lfare l, edistance = ldistance l\<rparr>"

fun is_walk :: "(string \<rightharpoonup> Edge list) \<Rightarrow> string \<Rightarrow> RouteLeg list \<Rightarrow> string \<Rightarrow> bool" where
  "is_walk adj u [] v = (u = v)"
| "is_walk adj u (l # ls) v =
     (lfrom l = u \<and> leg_edge l \<in> set (edges_at adj u) \<and> is_walk adj (lto l) ls v)"

definition nonneg_edges :: "(string \<rightharpoonup> Edge list) \<Rightarrow> bool" where
  "nonneg_edges adj = (\<forall>u. \<forall>ed\<in>set (edges_at adj u). 0 \<le> efare ed \<and> 0 \<le> edistance ed)"

definition closed_in :: "(string \<rightharpoonup> Edge list) \<Rightarrow> string set \<Rightarrow> bool" where
  "closed_in adj V = (\<forall>u. \<forall>ed\<in>set (edges_at adj u). eto ed \<in> V)"

definition relaxed :: "priority \<Rightarrow> (string \<rightharpoonup> Cost) \<Rightarrow> string \<Rightarrow> Edge \<Rightarrow> bool" where
  "relaxed p best w ed =
     (\<exists>kw ku. bkey p best w = Some kw \<and> bkey p best (eto ed) = Some ku \<and> ku \<le> kadd kw (ekey p ed))"

definition inv_best :: "priority \<Rightarrow> string \<Rightarrow> string set \<Rightarrow> Node list \<Rightarrow> (string \<rightharpoonup> Cost) \<Rightarrow> bool" where
  "inv_best p start S pq best =
     ((\<forall>v c. best v = Some c \<longrightarrow> c = infCost \<or> finite_cost c) \<and>
      (\<forall>v k. bkey p best v = Some k \<longrightarrow> v \<in> S \<or> (\<exists>e\<in>set pq. node e = v \<and> ckey p (cost e) = k)) \<and>
      (\<exists>k. bkey p best start = Some k \<and> k \<le> (0, 0, 0)))"

definition inv_queue :: "priority \<Rightarrow> string set \<Rightarrow> Node list \<Rightarrow> (string \<rightharpoonup> Cost) \<Rightarrow> bool" where
  "inv_queue p V pq best =
     ((\<forall>e\<in>set pq. node e \<in> V \<and> finite_cost (cost e) \<and>
         (\<exists>k. bkey p best (node e) = Some k \<and> k \<le> ckey p (cost e))) \<and>
      distinct (map (\<lambda>e. (node e, cost e)) pq))"

definition inv_settled :: "priority \<Rightarrow> string set \<Rightarrow> string set \<Rightarrow> Node list \<Rightarrow> (string \<rightharpoonup> Cost) \<Rightarrow> bool" where
  "inv_settled p V S pq best =
     (S \<subseteq> V \<and>
      (\<forall>v\<in>S. \<exists>kv. bkey p best v = Some kv \<and>
         (\<forall>e\<in>set pq. kv \<le> ckey p (cost e) \<and> (node e = v \<longrightarrow> kv < ckey p (cost e)))))"

definition inv_relaxed ::
  "(string \<rightharpoonup> Edge list) \<Rightarrow> priority \<Rightarrow> string set \<Rightarrow> string \<Rightarrow> Edge list \<Rightarrow> (string \<rightharpoonup> Cost) \<Rightarrow> bool" where
  "inv_relaxed adj p S v pend best =
     (\<forall>w\<in>S. \<forall>ed\<in>set (edges_at adj w). (w = v \<and> ed \<in> set pend) \<or> relaxed p best w ed)"

definition ginv ::
  "(string \<rightharpoonup> Edge list) \<Rightarrow> priority \<Rightarrow> string \<Rightarrow> string set \<Rightarrow> string set \<Rightarrow> string \<Rightarrow> Edge list \<Rightarrow>
     Node list \<Rightarrow> (string \<rightharpoonup> Cost) \<Rightarrow> bool" where
  "ginv adj p start V S v pend pq best =
     (inv_best p start S pq best \<and> inv_queue p V pq best \<and> inv_settled p V S pq best \<and>
      inv_relaxed adj p S v pend best)"

lemma is_walk_snoc:
  "is_walk adj u (ls @ [l]) v \<longleftrightarrow>
     is_walk adj u ls (lfrom l) \<and> leg_edge l \<in> set (edges_at adj (lfrom l)) \<and> lto l = v"
  by (induction ls arbitrary: u) auto

lemma legsCost_finite: "finite_cost (legsCost ls)"
  by (simp add: finite_cost_iff legsCost_def)

lemma legsKey_Nil: "ckey p (legsCost []) = (0, 0, 0)"
  by (simp add: ckey_def legsCost_def num_def tkey_zero)

lemma legsKey_snoc:
  "ckey p (legsCost (ls @ [l])) = kadd (ckey p (legsCost ls)) (ekey p (leg_edge l))"
  by (cases p) (simp_all add: ckey_def legsCost_def num_def tkey_def kadd_def ekey_def leg_edge_def)

subsection \<open>Sorting\<close>

lemma insort_node_sorted:
  assumes "finite_cost (cost x)" "\<forall>e\<in>set ys. finite_cost (cost e)"
    and "sorted_wrt (\<lambda>a b. ckey p (cost a) \<le> ckey p (cost b)) ys"
  shows "sorted_wrt (\<lambda>a b. ckey p (cost a) \<le> ckey p (cost b)) (insort_node p x ys)"
  using assms(2,3)
proof (induction ys)
  case Nil
  then show ?case by simp
next
  case (Cons y ys)
  show ?case
  proof (cases "ckey p (cost y) < ckey p (cost x)")
    case True
    with Cons assms(1) show ?thesis
      by (auto simp: cmp_gt_finite set_insort_node)
  next
    case False
    then have "ckey p (cost x) \<le> ckey p (cost y)" by simp
    with Cons.prems assms(1) False show ?thesis
      by (auto simp: cmp_gt_finite)
  qed
qed

lemma sort_pq_sorted:
  assumes "\<forall>e\<in>set xs. finite_cost (cost e)"
  shows "sorted_wrt (\<lambda>a b. ckey p (cost a) \<le> ckey p (cost b)) (sort_pq p xs)"
  using assms by (induction xs) (simp_all add: insort_node_sorted set_sort_pq)

lemma sort_pq_head_min:
  assumes "\<forall>e\<in>set pq. finite_cost (cost e)" "sort_pq p pq = cur # rest"
  shows "\<forall>e\<in>set rest. ckey p (cost cur) \<le> ckey p (cost e)"
  using sort_pq_sorted [OF assms(1), of p] assms(2) by simp

lemma distinct_map_insort_node:
  "distinct (map f (insort_node p x ys)) \<longleftrightarrow> f x \<notin> f ` set ys \<and> distinct (map f ys)"
  by (induction ys) (auto simp: set_insort_node)

lemma distinct_map_sort_pq: "distinct (map f (sort_pq p xs)) \<longleftrightarrow> distinct (map f xs)"
  by (induction xs) (simp_all add: distinct_map_insort_node set_sort_pq)


subsection \<open>One relaxation\<close>

definition expanding :: "priority \<Rightarrow> string set \<Rightarrow> Node \<Rightarrow> (string \<rightharpoonup> Cost) \<Rightarrow> bool" where
  "expanding p S cur best =
     (node cur \<in> S \<and> finite_cost (cost cur) \<and>
      bkey p best (node cur) = Some (ckey p (cost cur)) \<and>
      (\<forall>u\<in>S. \<exists>ku. bkey p best u = Some ku \<and> ku \<le> ckey p (cost cur)))"

lemma infCost_not_finite: "\<not> finite_cost infCost"
  by (simp add: finite_cost_def infCost_def is_fin_def)

lemma improves_iff:
  assumes "\<forall>v c. best v = Some c \<longrightarrow> c = infCost \<or> finite_cost c" "finite_cost (cost cur)"
  shows "improves p cur best ed \<longleftrightarrow>
           (\<forall>k. bkey p best (eto ed) = Some k \<longrightarrow> ckey p (stepCost (cost cur) ed) < k)"
proof (cases "best (eto ed)")
  case None
  then show ?thesis
    by (simp add: improves_def bkey_def cmp_lt_inf stepCost_finite assms(2))
next
  case (Some c)
  show ?thesis
  proof (cases "finite_cost c")
    case True
    with Some show ?thesis
      by (simp add: improves_def bkey_def cmp_lt_finite stepCost_finite assms(2))
  next
    case False
    with assms(1) Some have "c = infCost" by blast
    with Some False show ?thesis
      by (simp add: improves_def bkey_def cmp_lt_inf stepCost_finite assms(2))
  qed
qed

lemma bkey_upd:
  "finite_cost c \<Longrightarrow> bkey p (best(u \<mapsto> c)) w = (if w = u then Some (ckey p c) else bkey p best w)"
  by (simp add: bkey_def)

lemma relax_keep:
  assumes g: "ginv adj p start V S (node cur) (ed # es) pq best"
    and e: "expanding p S cur best"
    and n: "\<not> improves p cur best ed"
  shows "ginv adj p start V S (node cur) es pq best"
proof -
  from g have b0: "\<forall>v c. best v = Some c \<longrightarrow> c = infCost \<or> finite_cost c"
    by (simp add: ginv_def inv_best_def)
  from e have fc: "finite_cost (cost cur)"
    and kv: "bkey p best (node cur) = Some (ckey p (cost cur))"
    by (simp_all add: expanding_def)
  from n improves_iff [OF b0 fc, of p ed]
  obtain ku where ku: "bkey p best (eto ed) = Some ku" "ku \<le> ckey p (stepCost (cost cur) ed)"
    by (auto simp: not_less)
  have "relaxed p best (node cur) ed"
    using kv ku by (simp add: relaxed_def ckey_stepCost fc)
  with g show ?thesis
    by (auto simp: ginv_def inv_relaxed_def)
qed

lemma relax_push:
  assumes g: "ginv adj p start V S (node cur) (ed # es) pq best"
    and e: "expanding p S cur best"
    and i: "improves p cur best ed"
    and nn: "0 \<le> efare ed" "0 \<le> edistance ed"
    and inV: "eto ed \<in> V"
  shows "ginv adj p start V S (node cur) es (pq @ [extendNode cur ed])
           (best(eto ed \<mapsto> stepCost (cost cur) ed))"
    and "expanding p S cur (best(eto ed \<mapsto> stepCost (cost cur) ed))"
proof -
  define u where "u = eto ed"
  define nc where "nc = stepCost (cost cur) ed"
  define best' where "best' = best(u \<mapsto> nc)"
  define pq' where "pq' = pq @ [extendNode cur ed]"
  from g have ib: "inv_best p start S pq best" and iq: "inv_queue p V pq best"
    and ist: "inv_settled p V S pq best" and ir: "inv_relaxed adj p S (node cur) (ed # es) best"
    by (simp_all add: ginv_def)
  from ib have b0: "\<forall>v c. best v = Some c \<longrightarrow> c = infCost \<or> finite_cost c"
    by (simp add: inv_best_def)
  from e have fc: "finite_cost (cost cur)" and inS: "node cur \<in> S"
    and kv: "bkey p best (node cur) = Some (ckey p (cost cur))"
    and le: "\<forall>w\<in>S. \<exists>kw. bkey p best w = Some kw \<and> kw \<le> ckey p (cost cur)"
    by (simp_all add: expanding_def)
  have fnc: "finite_cost nc" by (simp add: nc_def stepCost_finite fc)
  have nk: "ckey p nc = kadd (ckey p (cost cur)) (ekey p ed)"
    by (simp add: nc_def ckey_stepCost fc)
  have gt: "ckey p (cost cur) < ckey p nc"
    unfolding nk using nn by (rule kadd_strict)
  from i improves_iff [OF b0 fc, of p ed]
  have imp: "\<And>k. bkey p best u = Some k \<Longrightarrow> ckey p nc < k"
    by (simp add: u_def nc_def)
  have notS: "u \<notin> S"
  proof
    assume "u \<in> S"
    with le obtain ku where "bkey p best u = Some ku" "ku \<le> ckey p (cost cur)" by blast
    with imp [of ku] gt show False by simp
  qed
  have bk: "bkey p best' w = (if w = u then Some (ckey p nc) else bkey p best w)" for w
    by (simp add: best'_def bkey_upd fnc)
  have ext: "node (extendNode cur ed) = u" "cost (extendNode cur ed) = nc"
    by (simp_all add: extendNode_def u_def nc_def)
  have ib': "inv_best p start S pq' best'"
    unfolding inv_best_def
  proof (intro conjI allI impI)
    fix v c assume "best' v = Some c"
    with b0 fnc show "c = infCost \<or> finite_cost c"
      by (auto simp: best'_def split: if_splits)
  next
    fix v k assume a: "bkey p best' v = Some k"
    from ib have B: "\<And>v k. bkey p best v = Some k \<Longrightarrow>
        v \<in> S \<or> (\<exists>e\<in>set pq. node e = v \<and> ckey p (cost e) = k)"
      unfolding inv_best_def by blast
    show "v \<in> S \<or> (\<exists>e\<in>set pq'. node e = v \<and> ckey p (cost e) = k)"
    proof (cases "v = u")
      case True
      with a have "k = ckey p nc" by (simp add: bk)
      with True ext show ?thesis by (simp add: pq'_def)
    next
      case False
      with a have "bkey p best v = Some k" by (simp add: bk)
      from B [OF this] show ?thesis by (auto simp: pq'_def)
    qed
  next
    from ib obtain k0 where k0: "bkey p best start = Some k0" "k0 \<le> (0, 0, 0)"
      by (auto simp: inv_best_def)
    show "\<exists>k. bkey p best' start = Some k \<and> k \<le> (0, 0, 0)"
    proof (cases "start = u")
      case True
      with imp [of k0] k0 have "ckey p nc \<le> (0, 0, 0)" by simp
      with True show ?thesis by (simp add: bk)
    next
      case False
      with k0 show ?thesis by (simp add: bk)
    qed
  qed
  have iq': "inv_queue p V pq' best'"
    unfolding inv_queue_def
  proof (rule conjI; (rule ballI)?)
    fix x assume "x \<in> set pq'"
    then consider "x \<in> set pq" | "x = extendNode cur ed" by (auto simp: pq'_def)
    then show "node x \<in> V \<and> finite_cost (cost x) \<and>
                 (\<exists>k. bkey p best' (node x) = Some k \<and> k \<le> ckey p (cost x))"
    proof cases
      case 1
      with iq obtain k where k: "node x \<in> V" "finite_cost (cost x)"
        "bkey p best (node x) = Some k" "k \<le> ckey p (cost x)"
        by (auto simp: inv_queue_def)
      show ?thesis
      proof (cases "node x = u")
        case True
        with k imp [of k] show ?thesis by (simp add: bk)
      next
        case False
        with k show ?thesis by (simp add: bk)
      qed
    next
      case 2
      with ext fnc inV show ?thesis by (simp add: bk u_def)
    qed
  next
    have "(u, nc) \<notin> (\<lambda>e. (node e, cost e)) ` set pq"
    proof
      assume "(u, nc) \<in> (\<lambda>e. (node e, cost e)) ` set pq"
      then obtain x where x: "x \<in> set pq" "node x = u" "cost x = nc" by auto
      with iq obtain k where "bkey p best u = Some k" "k \<le> ckey p nc"
        by (auto simp: inv_queue_def)
      with imp [of k] show False by simp
    qed
    with iq ext show "distinct (map (\<lambda>e. (node e, cost e)) pq')"
      by (simp add: inv_queue_def pq'_def)
  qed
  have ist': "inv_settled p V S pq' best'"
    unfolding inv_settled_def
  proof (intro conjI ballI)
    from ist show "S \<subseteq> V" by (simp add: inv_settled_def)
  next
    fix v assume v: "v \<in> S"
    with notS have vu: "v \<noteq> u" by blast
    from ist v obtain kv where kv': "bkey p best v = Some kv"
      "\<forall>e\<in>set pq. kv \<le> ckey p (cost e) \<and> (node e = v \<longrightarrow> kv < ckey p (cost e))"
      by (auto simp: inv_settled_def)
    from le v kv' have "kv \<le> ckey p (cost cur)" by auto
    with gt have "kv < ckey p nc" by simp
    with kv' vu ext show "\<exists>kv. bkey p best' v = Some kv \<and>
        (\<forall>e\<in>set pq'. kv \<le> ckey p (cost e) \<and> (node e = v \<longrightarrow> kv < ckey p (cost e)))"
      by (auto simp: bk pq'_def)
  qed
  have ir': "inv_relaxed adj p S (node cur) es best'"
    unfolding inv_relaxed_def
  proof (intro ballI)
    fix w ed' assume w: "w \<in> S" and ed': "ed' \<in> set (edges_at adj w)"
    with notS have wu: "w \<noteq> u" by blast
    from ir w ed' consider "w = node cur" "ed' = ed" | "w = node cur" "ed' \<in> set es"
      | "relaxed p best w ed'"
      by (auto simp: inv_relaxed_def)
    then show "w = node cur \<and> ed' \<in> set es \<or> relaxed p best' w ed'"
    proof cases
      case 1
      with kv wu have "relaxed p best' w ed'"
        by (simp add: relaxed_def bk u_def nk)
      then show ?thesis ..
    next
      case 2
      then show ?thesis by simp
    next
      case 3
      then obtain kw ku where r: "bkey p best w = Some kw" "bkey p best (eto ed') = Some ku"
        "ku \<le> kadd kw (ekey p ed')"
        by (auto simp: relaxed_def)
      have "relaxed p best' w ed'"
      proof (cases "eto ed' = u")
        case True
        with imp [of ku] r have "ckey p nc \<le> kadd kw (ekey p ed')" by simp
        with True r wu show ?thesis by (simp add: relaxed_def bk)
      next
        case False
        with r wu show ?thesis by (simp add: relaxed_def bk)
      qed
      then show ?thesis ..
    qed
  qed
  from ib' iq' ist' ir'
  show "ginv adj p start V S (node cur) es (pq @ [extendNode cur ed])
          (best(eto ed \<mapsto> stepCost (cost cur) ed))"
    by (simp add: ginv_def pq'_def best'_def u_def nc_def)
  from inS notS have "node cur \<noteq> u" by blast
  with e notS show "expanding p S cur (best(eto ed \<mapsto> stepCost (cost cur) ed))"
    unfolding expanding_def best'_def [unfolded u_def nc_def, symmetric]
    by (auto simp: bk)
qed


lemma foldl_relax_inv:
  assumes "ginv adj p start V S (node cur) es pq best" "expanding p S cur best"
    and "\<forall>ed\<in>set es. 0 \<le> efare ed \<and> 0 \<le> edistance ed \<and> eto ed \<in> V"
  shows "case foldl (relax p cur) (pq, best) es of
           (pq', best') \<Rightarrow> ginv adj p start V S (node cur) [] pq' best' \<and>
                            length pq' \<le> length pq + length es"
  using assms
proof (induction es arbitrary: pq best)
  case Nil
  then show ?case by simp
next
  case (Cons ed es)
  from Cons.prems(3) have nn: "0 \<le> efare ed" "0 \<le> edistance ed" and inV: "eto ed \<in> V"
    and rest: "\<forall>ed\<in>set es. 0 \<le> efare ed \<and> 0 \<le> edistance ed \<and> eto ed \<in> V"
    by simp_all
  show ?case
  proof (cases "improves p cur best ed")
    case True
    from relax_push [OF Cons.prems(1,2) True nn inV]
    have "ginv adj p start V S (node cur) es (pq @ [extendNode cur ed])
            (best(eto ed \<mapsto> stepCost (cost cur) ed))"
      and "expanding p S cur (best(eto ed \<mapsto> stepCost (cost cur) ed))" .
    from Cons.IH [OF this rest]
    have "case foldl (relax p cur) (pq @ [extendNode cur ed], best(eto ed \<mapsto> stepCost (cost cur) ed)) es of
            (pq', best') \<Rightarrow> ginv adj p start V S (node cur) [] pq' best' \<and>
                             length pq' \<le> length (pq @ [extendNode cur ed]) + length es" .
    moreover have "foldl (relax p cur) (pq, best) (ed # es) =
        foldl (relax p cur) (pq @ [extendNode cur ed], best(eto ed \<mapsto> stepCost (cost cur) ed)) es"
      using True by (simp only: foldl_Cons relax_eq if_True)
    ultimately show ?thesis
      by (auto simp del: foldl_Cons split: prod.splits)
  next
    case False
    from relax_keep [OF Cons.prems(1,2) False]
    have "ginv adj p start V S (node cur) es pq best" .
    from Cons.IH [OF this Cons.prems(2) rest]
    have "case foldl (relax p cur) (pq, best) es of
            (pq', best') \<Rightarrow> ginv adj p start V S (node cur) [] pq' best' \<and>
                             length pq' \<le> length pq + length es" .
    moreover have "foldl (relax p cur) (pq, best) (ed # es) = foldl (relax p cur) (pq, best) es"
      using False by (simp only: foldl_Cons relax_eq if_False)
    ultimately show ?thesis
      by (auto simp del: foldl_Cons split: prod.splits)
  qed
qed

subsection \<open>Taking the first record of the sorted frontier\<close>

lemma pop_stale:
  assumes g: "ginv adj p start V S v [] pq best"
    and s: "sort_pq p pq = cur # rest"
    and k: "bkey p best (node cur) = Some k" "k < ckey p (cost cur)"
  shows "ginv adj p start V S v [] rest best"
proof -
  from g have ib: "inv_best p start S pq best" and iq: "inv_queue p V pq best"
    and ist: "inv_settled p V S pq best" and ir: "inv_relaxed adj p S v [] best"
    by (simp_all add: ginv_def)
  have sp: "set pq = insert cur (set rest)"
    using set_sort_pq [of p pq] s by simp
  have d: "distinct (map (\<lambda>e. (node e, cost e)) rest)"
    using iq distinct_map_sort_pq [of "\<lambda>e. (node e, cost e)" p pq] s
    by (simp add: inv_queue_def)
  have ib': "inv_best p start S rest best"
    unfolding inv_best_def
  proof (intro conjI allI impI)
    fix w c assume "best w = Some c"
    with ib show "c = infCost \<or> finite_cost c" unfolding inv_best_def by blast
  next
    fix w k' assume a: "bkey p best w = Some k'"
    with ib have "w \<in> S \<or> (\<exists>e\<in>set pq. node e = w \<and> ckey p (cost e) = k')"
      unfolding inv_best_def by blast
    then show "w \<in> S \<or> (\<exists>e\<in>set rest. node e = w \<and> ckey p (cost e) = k')"
    proof
      assume "w \<in> S" then show ?thesis ..
    next
      assume "\<exists>e\<in>set pq. node e = w \<and> ckey p (cost e) = k'"
      then obtain e where e: "e \<in> set pq" "node e = w" "ckey p (cost e) = k'" by blast
      have "e \<noteq> cur"
      proof
        assume "e = cur"
        with e a k show False by simp
      qed
      with e sp show ?thesis by auto
    qed
  next
    from ib show "\<exists>k. bkey p best start = Some k \<and> k \<le> (0, 0, 0)"
      unfolding inv_best_def by blast
  qed
  have iq': "inv_queue p V rest best"
    using iq d sp by (simp add: inv_queue_def)
  have ist': "inv_settled p V S rest best"
    using ist sp unfolding inv_settled_def by (metis insertCI)
  from ib' iq' ist' ir show ?thesis by (simp add: ginv_def)
qed

lemma pop_settle:
  assumes g: "ginv adj p start V S v [] pq best"
    and s: "sort_pq p pq = cur # rest"
    and k: "bkey p best (node cur) = Some k" "\<not> k < ckey p (cost cur)"
  shows "node cur \<notin> S"
    and "ginv adj p start V (insert (node cur) S) (node cur) (edges_at adj (node cur)) rest best"
    and "expanding p (insert (node cur) S) cur best"
proof -
  from g have ib: "inv_best p start S pq best" and iq: "inv_queue p V pq best"
    and ist: "inv_settled p V S pq best" and ir: "inv_relaxed adj p S v [] best"
    by (simp_all add: ginv_def)
  have sp: "set pq = insert cur (set rest)"
    using set_sort_pq [of p pq] s by simp
  have dd: "distinct (map (\<lambda>e. (node e, cost e)) (cur # rest))"
    using iq distinct_map_sort_pq [of "\<lambda>e. (node e, cost e)" p pq] s
    by (simp add: inv_queue_def)
  from iq sp have fin: "\<forall>e\<in>set pq. finite_cost (cost e)" and fc: "finite_cost (cost cur)"
    and cV: "node cur \<in> V"
    by (simp_all add: inv_queue_def)
  from iq sp k(1) have "k \<le> ckey p (cost cur)"
    by (auto simp: inv_queue_def)
  with k(2) have keq: "k = ckey p (cost cur)" by simp
  show notS: "node cur \<notin> S"
  proof
    assume "node cur \<in> S"
    with ist obtain kv where "bkey p best (node cur) = Some kv"
      "\<forall>e\<in>set pq. kv \<le> ckey p (cost e) \<and> (node e = node cur \<longrightarrow> kv < ckey p (cost e))"
      unfolding inv_settled_def by blast
    with sp k show False by auto
  qed
  have minr: "\<forall>e\<in>set rest. ckey p (cost cur) \<le> ckey p (cost e)"
    using sort_pq_head_min [OF fin s] .
  have ib': "inv_best p start (insert (node cur) S) rest best"
    unfolding inv_best_def
  proof (intro conjI allI impI)
    fix w c assume "best w = Some c"
    with ib show "c = infCost \<or> finite_cost c" unfolding inv_best_def by blast
  next
    fix w k' assume a: "bkey p best w = Some k'"
    with ib have "w \<in> S \<or> (\<exists>e\<in>set pq. node e = w \<and> ckey p (cost e) = k')"
      unfolding inv_best_def by blast
    with sp show "w \<in> insert (node cur) S \<or> (\<exists>e\<in>set rest. node e = w \<and> ckey p (cost e) = k')"
      by auto
  next
    from ib show "\<exists>k. bkey p best start = Some k \<and> k \<le> (0, 0, 0)"
      unfolding inv_best_def by blast
  qed
  have iq': "inv_queue p V rest best"
    using iq dd sp by (simp add: inv_queue_def)
  have ist': "inv_settled p V (insert (node cur) S) rest best"
    unfolding inv_settled_def
  proof (intro conjI ballI)
    from ist cV show "insert (node cur) S \<subseteq> V" by (simp add: inv_settled_def)
  next
    fix w assume "w \<in> insert (node cur) S"
    then consider "w = node cur" | "w \<in> S" by blast
    then show "\<exists>kv. bkey p best w = Some kv \<and>
        (\<forall>e\<in>set rest. kv \<le> ckey p (cost e) \<and> (node e = w \<longrightarrow> kv < ckey p (cost e)))"
    proof cases
      case 1
      have "ckey p (cost cur) < ckey p (cost e)" if e: "e \<in> set rest" "node e = node cur" for e
      proof -
        from dd have ni: "(node cur, cost cur) \<notin> (\<lambda>e. (node e, cost e)) ` set rest" by simp
        have "cost e \<noteq> cost cur"
        proof
          assume "cost e = cost cur"
          with e(2) have "(node cur, cost cur) = (\<lambda>e. (node e, cost e)) e" by simp
          with e(1) have "(node cur, cost cur) \<in> (\<lambda>e. (node e, cost e)) ` set rest"
            by (rule image_eqI [rotated])
          with ni show False ..
        qed
        moreover from fin sp e have "finite_cost (cost e)" by simp
        ultimately have "ckey p (cost e) \<noteq> ckey p (cost cur)"
          using ckey_inj [of "cost e" "cost cur" p] fc by blast
        with minr e show ?thesis by (simp add: less_le)
      qed
      with 1 k(1) keq minr show ?thesis by auto
    next
      case 2
      with ist obtain kv where "bkey p best w = Some kv"
        "\<forall>e\<in>set pq. kv \<le> ckey p (cost e) \<and> (node e = w \<longrightarrow> kv < ckey p (cost e))"
        unfolding inv_settled_def by blast
      with sp show ?thesis by auto
    qed
  qed
  have ir': "inv_relaxed adj p (insert (node cur) S) (node cur) (edges_at adj (node cur)) best"
    using ir by (auto simp: inv_relaxed_def)
  from ib' iq' ist' ir'
  show "ginv adj p start V (insert (node cur) S) (node cur) (edges_at adj (node cur)) rest best"
    by (simp add: ginv_def)
  have old: "\<exists>ku. bkey p best u = Some ku \<and> ku \<le> ckey p (cost cur)" if "u \<in> S" for u
  proof -
    from ist that obtain kv where "bkey p best u = Some kv"
      "\<forall>e\<in>set pq. kv \<le> ckey p (cost e) \<and> (node e = u \<longrightarrow> kv < ckey p (cost e))"
      unfolding inv_settled_def by blast
    with sp show ?thesis by blast
  qed
  have kc: "bkey p best (node cur) = Some (ckey p (cost cur))"
    using k(1) keq by simp
  show "expanding p (insert (node cur) S) cur best"
    unfolding expanding_def
  proof (intro conjI ballI)
    fix u assume "u \<in> insert (node cur) S"
    then consider "u = node cur" | "u \<in> S" by blast
    then show "\<exists>ku. bkey p best u = Some ku \<and> ku \<le> ckey p (cost cur)"
    proof cases
      case 1
      with kc show ?thesis by blast
    next
      case 2
      then show ?thesis by (rule old)
    qed
  qed (simp_all add: fc kc)
qed


subsection \<open>Every walk costs at least what the first record of the frontier costs\<close>

definition resultCost :: "PathResult \<Rightarrow> Cost" where
  "resultCost r = \<lparr>fare = totalFare r, stops = totalStops r, distance = totalDistance r\<rparr>"

lemma walk_lower_bound:
  assumes nn: "nonneg_edges adj"
    and g: "ginv adj p start V S v [] pq best"
    and w: "is_walk adj start ls u"
  shows "(u \<in> S \<and> (\<exists>k. bkey p best u = Some k \<and> k \<le> ckey p (legsCost ls))) \<or>
         (\<exists>e\<in>set pq. ckey p (cost e) \<le> ckey p (legsCost ls))"
  using w
proof (induction ls arbitrary: u rule: rev_induct)
  case Nil
  then have u: "u = start" by simp
  from g obtain k where k: "bkey p best start = Some k" "k \<le> (0, 0, 0)"
    unfolding ginv_def inv_best_def by blast
  from g k(1) have "start \<in> S \<or> (\<exists>e\<in>set pq. node e = start \<and> ckey p (cost e) = k)"
    unfolding ginv_def inv_best_def by blast
  with k u show ?case by (auto simp: legsKey_Nil)
next
  case (snoc l ls)
  from snoc.prems have w': "is_walk adj start ls (lfrom l)"
    and ed: "leg_edge l \<in> set (edges_at adj (lfrom l))" and u: "lto l = u"
    by (simp_all add: is_walk_snoc)
  from nn ed have "0 \<le> efare (leg_edge l)" "0 \<le> edistance (leg_edge l)"
    by (auto simp: nonneg_edges_def)
  then have up: "ckey p (legsCost ls) < ckey p (legsCost (ls @ [l]))"
    unfolding legsKey_snoc by (rule kadd_strict)
  from snoc.IH [OF w'] show ?case
  proof
    assume "\<exists>e\<in>set pq. ckey p (cost e) \<le> ckey p (legsCost ls)"
    then obtain e where "e \<in> set pq" "ckey p (cost e) \<le> ckey p (legsCost ls)" by blast
    with up have "e \<in> set pq" "ckey p (cost e) \<le> ckey p (legsCost (ls @ [l]))" by simp_all
    then show ?thesis by blast
  next
    assume "lfrom l \<in> S \<and> (\<exists>k. bkey p best (lfrom l) = Some k \<and> k \<le> ckey p (legsCost ls))"
    then obtain kw where inS: "lfrom l \<in> S" and kw: "bkey p best (lfrom l) = Some kw"
      "kw \<le> ckey p (legsCost ls)" by blast
    from g inS ed have "relaxed p best (lfrom l) (leg_edge l)"
      unfolding ginv_def inv_relaxed_def by auto
    with kw(1) obtain ku where ku: "bkey p best (eto (leg_edge l)) = Some ku"
      "ku \<le> kadd kw (ekey p (leg_edge l))"
      by (auto simp: relaxed_def)
    have tu: "eto (leg_edge l) = u" using u by (simp add: leg_edge_def)
    from kadd_mono [OF kw(2)] ku(2) have le: "ku \<le> ckey p (legsCost (ls @ [l]))"
      unfolding legsKey_snoc by (rule order_trans [rotated])
    from g ku(1) tu have "u \<in> S \<or> (\<exists>e\<in>set pq. node e = u \<and> ckey p (cost e) = ku)"
      unfolding ginv_def inv_best_def by blast
    with ku(1) tu le show ?thesis by blast
  qed
qed

lemma pop_optimal:
  assumes nn: "nonneg_edges adj"
    and g: "ginv adj p start V S v [] pq best"
    and s: "sort_pq p pq = cur # rest"
    and k: "bkey p best (node cur) = Some k" "\<not> k < ckey p (cost cur)"
    and w: "is_walk adj start ls (node cur)"
  shows "ckey p (cost cur) \<le> ckey p (legsCost ls)"
proof -
  have sp: "set pq = insert cur (set rest)"
    using set_sort_pq [of p pq] s by simp
  from g have fin: "\<forall>e\<in>set pq. finite_cost (cost e)"
    by (simp add: ginv_def inv_queue_def)
  note minr = sort_pq_head_min [OF fin s]
  from pop_settle(1) [OF g s k] walk_lower_bound [OF nn g w]
  obtain e where e: "e \<in> set pq" "ckey p (cost e) \<le> ckey p (legsCost ls)" by blast
  from e(1) sp minr have "ckey p (cost cur) \<le> ckey p (cost e)" by auto
  then show ?thesis using e(2) by (rule order_trans)
qed

lemma foldl_set_inf:
  "foldl (\<lambda>b s. b(name s \<mapsto> infCost)) b0 ss w =
     (if w \<in> name ` set ss then Some infCost else b0 w)"
  by (induction ss arbitrary: b0) auto

lemma initBest_apply:
  "initBest stopsArr start w =
     (if w = start then Some zeroCost
      else if w \<in> name ` set stopsArr then Some infCost else None)"
  by (simp add: initBest_def foldl_set_inf)

lemma zeroCost_finite: "finite_cost zeroCost"
  by (simp add: finite_cost_def zeroCost_def is_fin_def)

lemma ckey_zeroCost: "ckey p zeroCost = (0, 0, 0)"
  by (simp add: ckey_def zeroCost_def num_def tkey_zero)

lemma bkey_initBest:
  "bkey p (initBest stopsArr start) w = (if w = start then Some (0, 0, 0) else None)"
  by (simp add: bkey_def initBest_apply zeroCost_finite ckey_zeroCost infCost_not_finite)

lemma init_ginv:
  assumes "start \<in> V"
  shows "ginv adj p start V {} v []
           [\<lparr>node = start, path = [start], legs = [], cost = zeroCost\<rparr>] (initBest stopsArr start)"
  unfolding ginv_def
proof (intro conjI)
  show "inv_best p start {} [\<lparr>node = start, path = [start], legs = [], cost = zeroCost\<rparr>]
          (initBest stopsArr start)"
    by (auto simp: inv_best_def bkey_initBest initBest_apply zeroCost_finite ckey_zeroCost
          split: if_splits)
  show "inv_queue p V [\<lparr>node = start, path = [start], legs = [], cost = zeroCost\<rparr>]
          (initBest stopsArr start)"
    using assms by (simp add: inv_queue_def bkey_initBest zeroCost_finite ckey_zeroCost)
  show "inv_settled p V {} [\<lparr>node = start, path = [start], legs = [], cost = zeroCost\<rparr>]
          (initBest stopsArr start)"
    by (simp add: inv_settled_def)
  show "inv_relaxed adj p {} v [] (initBest stopsArr start)"
    by (simp add: inv_relaxed_def)
qed


subsection \<open>The loop returns, and what it returns is optimal\<close>

text \<open>
  Each turn of the loop either drops a superseded record, or settles a stop that was not
  settled before and pushes at most one record per edge leaving it: the number \<open>work\<close>
  goes down.
\<close>

definition work :: "(string \<rightharpoonup> Edge list) \<Rightarrow> string set \<Rightarrow> string set \<Rightarrow> Node list \<Rightarrow> nat" where
  "work adj V S pq = length pq + (\<Sum>u\<in>V - S. Suc (length (edges_at adj u)))"

definition search_post ::
  "(string \<rightharpoonup> Edge list) \<Rightarrow> priority \<Rightarrow> string \<Rightarrow> string \<Rightarrow> string set \<Rightarrow> outcome \<Rightarrow> bool" where
  "search_post adj p start endName V y =
     (y \<noteq> TypeError \<and> (endName \<notin> V \<longrightarrow> y = Null) \<and>
      (\<forall>r. y = Found r \<longrightarrow>
         finite_cost (resultCost r) \<and>
         (\<forall>ls. is_walk adj start ls endName \<longrightarrow> ckey p (resultCost r) \<le> ckey p (legsCost ls))))"

lemma work_settle:
  assumes "finite V" "x \<in> V" "x \<notin> S" "length pq' \<le> length rest + length (edges_at adj x)"
  shows "work adj V (insert x S) pq' < work adj V S (cur # rest)"
proof -
  have "V - insert x S = (V - S) - {x}" by blast
  moreover have "x \<in> V - S" using assms(2,3) by simp
  moreover have "finite (V - S)" using assms(1) by simp
  ultimately have "(\<Sum>u\<in>V - S. Suc (length (edges_at adj u))) =
      Suc (length (edges_at adj x)) + (\<Sum>u\<in>V - insert x S. Suc (length (edges_at adj u)))"
    by (simp add: sum.remove)
  with assms(4) show ?thesis by (simp add: work_def)
qed

lemma search_total:
  assumes nn: "nonneg_edges adj" and cl: "closed_in adj V" and fV: "finite V"
  shows "ginv adj p start V S v [] pq best \<Longrightarrow>
         \<exists>y. search adj p endName pq best = Some y \<and> search_post adj p start endName V y"
proof (induction "work adj V S pq" arbitrary: S v pq best rule: less_induct)
  case less
  note g = less.prems
  show ?case
  proof (cases "sort_pq p pq")
    case Nil
    then have "search adj p endName pq best = Some Null"
      by (subst search.simps) simp
    then show ?thesis by (simp add: search_post_def)
  next
    case (Cons cur rest)
    have sp: "set pq = insert cur (set rest)"
      using set_sort_pq [of p pq] Cons by simp
    have len: "length pq = Suc (length rest)"
      using length_sort_pq [of p pq] Cons by simp
    from g sp obtain k where k: "bkey p best (node cur) = Some k"
      and fc: "finite_cost (cost cur)" and cV: "node cur \<in> V"
      unfolding ginv_def inv_queue_def by auto
    from k obtain c where c: "best (node cur) = Some c" "finite_cost c" "k = ckey p c"
      by (auto simp: bkey_def split: option.splits if_splits)
    have cond: "jlt (Fin 0) (cmpCost p (cost cur) c) = (k < ckey p (cost cur))"
      using fc c by (simp add: cmp_gt_finite)
    show ?thesis
    proof (cases "k < ckey p (cost cur)")
      case True
      with cond have st: "jlt (Fin 0) (cmpCost p (cost cur) c)" by simp
      have eq: "search adj p endName pq best = search adj p endName rest best"
        by (subst search.simps) (simp add: Cons c(1) st)
      have "work adj V S rest < work adj V S pq"
        by (simp add: work_def len)
      from less.hyps [OF this pop_stale [OF g Cons k True]] eq show ?thesis by simp
    next
      case False
      with cond have st: "\<not> jlt (Fin 0) (cmpCost p (cost cur) c)" by simp
      note settle = pop_settle [OF g Cons k False]
      show ?thesis
      proof (cases "node cur = endName")
        case True
        define r where "r = \<lparr>rpath = path cur, rlegs = legs cur, totalFare = fare (cost cur),
          totalDistance = distance (cost cur), totalStops = stops (cost cur)\<rparr>"
        have eq: "search adj p endName pq best = Some (Found r)"
          by (subst search.simps) (simp add: Cons c(1) [unfolded True] st True r_def)
        have rc: "resultCost r = cost cur"
          by (simp add: resultCost_def r_def)
        have "ckey p (cost cur) \<le> ckey p (legsCost ls)" if "is_walk adj start ls endName" for ls
          using pop_optimal [OF nn g Cons k False] that True by simp
        with eq rc fc cV True show ?thesis
          by (simp add: search_post_def)
      next
        case ne: False
        obtain pq' best' where f:
          "foldl (relax p cur) (rest, best) (edges_at adj (node cur)) = (pq', best')"
          by (cases "foldl (relax p cur) (rest, best) (edges_at adj (node cur))")
        have eq: "search adj p endName pq best = search adj p endName pq' best'"
          by (subst search.simps) (simp add: Cons c(1) st ne f)
        have edges: "\<forall>ed\<in>set (edges_at adj (node cur)).
            0 \<le> efare ed \<and> 0 \<le> edistance ed \<and> eto ed \<in> V"
          using nn cl by (auto simp: nonneg_edges_def closed_in_def)
        from foldl_relax_inv [OF settle(2,3) edges] f
        have g': "ginv adj p start V (insert (node cur) S) (node cur) [] pq' best'"
          and l': "length pq' \<le> length rest + length (edges_at adj (node cur))"
          by simp_all
        have "work adj V (insert (node cur) S) pq' < work adj V S (cur # rest)"
          using fV cV settle(1) l' by (rule work_settle)
        also have "work adj V S (cur # rest) = work adj V S pq"
          by (simp add: work_def len)
        finally have "work adj V (insert (node cur) S) pq' < work adj V S pq" .
        from less.hyps [OF this g'] eq show ?thesis by simp
      qed
    qed
  qed
qed


subsection \<open>The graph of a stop list and a route list\<close>

definition nonneg_routes :: "Route list \<Rightarrow> bool" where
  "nonneg_routes routesArr =
     list_all (\<lambda>r. 0 \<le> rfare r \<and> (case rdistance r of None \<Rightarrow> True | Some d \<Rightarrow> 0 \<le> d)) routesArr"

definition targets :: "(string \<rightharpoonup> Edge list) \<Rightarrow> string set" where
  "targets adj = {w. \<exists>u ed. ed \<in> set (edges_at adj u) \<and> eto ed = w}"

lemma route_edges_props:
  assumes "ed \<in> set (route_edges coordsMap u r)"
  shows "coordsMap (rfrom r) \<noteq> None \<and> coordsMap (rto r) \<noteq> None \<and> coordsMap u \<noteq> None \<and>
         eto ed \<in> {rfrom r, rto r} \<and> efare ed = rfare r \<and>
         (\<exists>a b. edistance ed = route_distance r a b)"
proof (cases "coordsMap (rfrom r)")
  case None
  with assms show ?thesis by (simp add: route_edges_def)
next
  case a: (Some a)
  show ?thesis
  proof (cases "coordsMap (rto r)")
    case None
    with assms a show ?thesis by (simp add: route_edges_def)
  next
    case b: (Some b)
    from assms a b consider
        "rfrom r = u" "ed = \<lparr>eto = rto r, efare = rfare r, edistance = route_distance r a b\<rparr>"
      | "rto r = u" "ed = \<lparr>eto = rfrom r, efare = rfare r, edistance = route_distance r a b\<rparr>"
      by (auto simp: route_edges_def split: if_splits)
    then show ?thesis
    proof cases
      case 1
      with a b show ?thesis by (intro conjI exI [of _ a] exI [of _ b]) simp_all
    next
      case 2
      with a b show ?thesis by (intro conjI exI [of _ a] exI [of _ b]) simp_all
    qed
  qed
qed

lemma buildAdj_edge_props:
  assumes "ed \<in> set (edges_at (buildAdj stopsArr routesArr) u)"
  shows "\<exists>r\<in>set routesArr. u \<in> name ` set stopsArr \<and> eto ed \<in> {rfrom r, rto r} \<and>
           eto ed \<in> name ` set stopsArr \<and> efare ed = rfare r \<and>
           (\<exists>a b. edistance ed = route_distance r a b)"
proof -
  from assms obtain r where r: "r \<in> set routesArr"
    "ed \<in> set (route_edges (coordsByName stopsArr) u r)"
    by (auto simp: edges_at_buildAdj)
  note pr = route_edges_props [OF r(2)]
  have dom: "coordsByName stopsArr x \<noteq> None \<Longrightarrow> x \<in> name ` set stopsArr" for x
    using coordsByName_dom [of stopsArr] by (auto simp: dom_def)
  from pr dom have "u \<in> name ` set stopsArr" "eto ed \<in> name ` set stopsArr"
    by auto
  with pr r(1) show ?thesis by blast
qed

lemma route_distance_nonneg:
  assumes "case rdistance r of None \<Rightarrow> True | Some d \<Rightarrow> 0 \<le> d"
  shows "0 \<le> route_distance r a b"
  using assms by (simp add: route_distance_def haversine_nonneg split: option.splits)

lemma nonneg_buildAdj:
  assumes "nonneg_routes routesArr"
  shows "nonneg_edges (buildAdj stopsArr routesArr)"
  unfolding nonneg_edges_def
proof (intro allI ballI)
  fix u ed assume "ed \<in> set (edges_at (buildAdj stopsArr routesArr) u)"
  from buildAdj_edge_props [OF this] obtain r a b where r: "r \<in> set routesArr"
    "efare ed = rfare r" "edistance ed = route_distance r a b" by blast
  from assms r(1) have "0 \<le> rfare r" "case rdistance r of None \<Rightarrow> True | Some d \<Rightarrow> 0 \<le> d"
    by (simp_all add: nonneg_routes_def list_all_iff)
  with r route_distance_nonneg [of r a b] show "0 \<le> efare ed \<and> 0 \<le> edistance ed" by simp
qed

lemma targets_buildAdj:
  "targets (buildAdj stopsArr routesArr) \<subseteq>
     (rfrom ` set routesArr \<union> rto ` set routesArr) \<inter> name ` set stopsArr"
proof
  fix w assume "w \<in> targets (buildAdj stopsArr routesArr)"
  then obtain u ed where "ed \<in> set (edges_at (buildAdj stopsArr routesArr) u)" "eto ed = w"
    by (auto simp: targets_def)
  with buildAdj_edge_props [OF this(1)]
  show "w \<in> (rfrom ` set routesArr \<union> rto ` set routesArr) \<inter> name ` set stopsArr" by auto
qed

lemma edges_at_absent:
  assumes "u \<notin> name ` set stopsArr"
  shows "edges_at (buildAdj stopsArr routesArr) u = []"
proof (rule ccontr)
  assume "edges_at (buildAdj stopsArr routesArr) u \<noteq> []"
  then obtain ed where "ed \<in> set (edges_at (buildAdj stopsArr routesArr) u)"
    by (cases "edges_at (buildAdj stopsArr routesArr) u") auto
  from buildAdj_edge_props [OF this] assms show False by blast
qed

lemma walk_key_nonneg:
  assumes "nonneg_edges adj" "is_walk adj u ls w"
  shows "(0, 0, 0) \<le> ckey p (legsCost ls)"
  using assms(2)
proof (induction ls arbitrary: w rule: rev_induct)
  case Nil
  then show ?case by (simp add: legsKey_Nil)
next
  case (snoc l ls)
  from snoc.prems have w': "is_walk adj u ls (lfrom l)"
    and ed: "leg_edge l \<in> set (edges_at adj (lfrom l))"
    by (simp_all add: is_walk_snoc)
  from assms(1) ed have "0 \<le> efare (leg_edge l)" "0 \<le> edistance (leg_edge l)"
    by (auto simp: nonneg_edges_def)
  then have "ckey p (legsCost ls) < ckey p (legsCost (ls @ [l]))"
    unfolding legsKey_snoc by (rule kadd_strict)
  with snoc.IH [OF w'] show ?case by (meson less_imp_le order_trans)
qed

lemma findBestPath_total:
  assumes nn: "nonneg_routes routesArr"
  shows "\<exists>y. findBestPath stopsArr routesArr start endName p = Some y \<and> y \<noteq> TypeError \<and>
           (start \<noteq> endName \<and> endName \<notin> name ` set stopsArr \<longrightarrow> y = Null) \<and>
           (\<forall>r. y = Found r \<longrightarrow>
              finite_cost (resultCost r) \<and>
              (\<forall>ls. is_walk (buildAdj stopsArr routesArr) start ls endName \<longrightarrow>
                 ckey p (resultCost r) \<le> ckey p (legsCost ls)))"
proof (cases "start = endName")
  case True
  have "(0, 0, 0) \<le> ckey p (legsCost ls)"
    if "is_walk (buildAdj stopsArr routesArr) start ls endName" for ls
    using walk_key_nonneg [OF nonneg_buildAdj [OF nn] that] .
  moreover have "resultCost \<lparr>rpath = [start], rlegs = [], totalFare = Fin 0, totalDistance = Fin 0,
      totalStops = Fin 0\<rparr> = zeroCost"
    by (simp add: resultCost_def zeroCost_def)
  ultimately show ?thesis
    using True by (simp add: findBestPath_def zeroCost_finite ckey_zeroCost)
next
  case False
  define adj where "adj = buildAdj stopsArr routesArr"
  define V where "V = insert start (targets adj)"
  have fin: "finite V"
    using finite_subset [OF targets_buildAdj [of stopsArr routesArr]]
    by (simp add: V_def adj_def)
  have cl: "closed_in adj V"
    by (auto simp: closed_in_def V_def targets_def)
  have nne: "nonneg_edges adj"
    unfolding adj_def using nn by (rule nonneg_buildAdj)
  have g: "ginv adj p start V {} start []
             [\<lparr>node = start, path = [start], legs = [], cost = zeroCost\<rparr>] (initBest stopsArr start)"
    by (rule init_ginv) (simp add: V_def)
  from search_total [OF nne cl fin g, of endName]
  obtain y where y: "search adj p endName
      [\<lparr>node = start, path = [start], legs = [], cost = zeroCost\<rparr>] (initBest stopsArr start) = Some y"
    "search_post adj p start endName V y" by blast
  have "endName \<notin> V" if "endName \<notin> name ` set stopsArr"
    using that False targets_buildAdj [of stopsArr routesArr] by (auto simp: V_def adj_def)
  with y False show ?thesis
    by (auto simp: findBestPath_def adj_def search_post_def)
qed


lemma cmpCost_neg_iff:
  "jlt (cmpCost p a b) (Fin 0) \<longleftrightarrow> first_diff_smaller (key_seq p a) (key_seq p b)"
  by (cases p) (simp_all add: cmpCost_def key_seq_def jsub_neg_iff not_jneq_not_jlt)

lemma first_diff_smaller_finite:
  assumes "finite_cost a" "finite_cost b"
  shows "first_diff_smaller (key_seq p a) (key_seq p b) \<longleftrightarrow> ckey p a < ckey p b"
  using cmpCost_neg_iff [of p a b] cmp_lt_finite [OF assms, of p] by simp

definition loop_routes :: "Route list" where
  "loop_routes = [\<lparr>rfrom = ''A'', rto = ''A'', rfare = 0, rdistance = Some 0\<rparr>,
                  \<lparr>rfrom = ''A'', rto = ''B'', rfare = 1, rdistance = Some 2\<rparr>]"

text \<open>
  In exact arithmetic the search is optimal. When no fare and no declared distance is
  negative, and \<open>findBestPath\<close> returns a result, no walk from the start to the end in
  the graph built from the same stops and routes has a (fare, leg count, distance) triple
  that is strictly smaller, in the key order of the priority, than the triple
  (\<open>totalFare\<close>, \<open>totalStops\<close>, \<open>totalDistance\<close>) of the result. The proof rests on
  \<open>kadd_strict\<close> and \<open>kadd_mono\<close>: adding an edge to two costs keeps their strict
  order. Rounded addition keeps only the weak order, which is where the program parts
  from this lemma (section \<open>Rounded sums\<close>).
\<close>

lemma findBestPath_optimal_exact:
  assumes "nonneg_routes routesArr"
    and "findBestPath stopsArr routesArr start endName p = Some (Found r)"
    and "is_walk (buildAdj stopsArr routesArr) start ls endName"
  shows "\<not> first_diff_smaller (key_seq p (legsCost ls)) (key_seq p (resultCost r))"
proof -
  from findBestPath_total [OF assms(1), of stopsArr start endName p] assms(2,3)
  have "finite_cost (resultCost r)" "ckey p (resultCost r) \<le> ckey p (legsCost ls)"
    by auto
  then show ?thesis
    by (simp add: first_diff_smaller_finite legsCost_finite not_less)
qed

lemma scenario_nonneg: "nonneg_routes scenario_routes"
  by (simp add: nonneg_routes_def scenario_routes_def)

text \<open>
  C9. For every finite stop list and route list in which no fare and no declared distance
  is negative, self-loop routes included, \<open>findBestPath\<close> returns: the loop does not
  run forever (and no \<^verbatim>\<open>TypeError\<close> is thrown). A self-loop edge never improves on the
  cost recorded for its stop (\<open>self_loop_never_improves\<close> below), so it pushes nothing.
\<close>

theorem findBestPath_terminates:
  assumes "nonneg_routes routesArr"
  shows "\<exists>y. findBestPath stopsArr routesArr start endName p = Some y \<and> y \<noteq> TypeError"
  using findBestPath_total [OF assms, of stopsArr start endName p] by blast

lemma loop_eval:
  "findBestPath scenario_stops loop_routes ''A'' ''C'' PDistance = Some Null"
  by (simp add: scenario_stops_def loop_routes_def search_eval_simps)

theorem findBestPath_terminates_witness:
  "nonneg_routes loop_routes \<and>
   (\<exists>y. findBestPath scenario_stops loop_routes ''A'' ''C'' PDistance = Some y \<and> y \<noteq> TypeError) \<and>
   findBestPath scenario_stops loop_routes ''A'' ''C'' PDistance = Some Null"
proof -
  have n: "nonneg_routes loop_routes"
    by (simp add: nonneg_routes_def loop_routes_def)
  from findBestPath_terminates [OF n, of scenario_stops "''A''" "''C''" PDistance] n loop_eval
  show ?thesis by simp
qed

lemma self_loop_never_improves:
  assumes "expanding p S cur best"
    and "\<forall>v c. best v = Some c \<longrightarrow> c = infCost \<or> finite_cost c"
    and "eto ed = node cur" "0 \<le> efare ed" "0 \<le> edistance ed"
  shows "\<not> improves p cur best ed"
proof -
  from assms(1) have fc: "finite_cost (cost cur)"
    and kv: "bkey p best (node cur) = Some (ckey p (cost cur))"
    by (simp_all add: expanding_def)
  have "ckey p (cost cur) < ckey p (stepCost (cost cur) ed)"
    unfolding ckey_stepCost [OF fc] using assms(4,5) by (rule kadd_strict)
  with kv assms(3) show ?thesis
    unfolding improves_iff [OF assms(2) fc] by (auto simp: not_less)
qed


subsection \<open>A name that is not a stop\<close>

lemma foldl_relax_nodes:
  assumes "\<forall>e\<in>set pq. node e \<noteq> endName \<and> best (node e) \<noteq> None"
    and "\<forall>ed\<in>set es. eto ed \<noteq> endName"
  shows "case foldl (relax p cur) (pq, best) es of
           (pq', best') \<Rightarrow> \<forall>e\<in>set pq'. node e \<noteq> endName \<and> best' (node e) \<noteq> None"
  using assms
proof (induction es arbitrary: pq best)
  case Nil
  then show ?case by simp
next
  case (Cons ed es)
  from Cons.prems(2) have ne: "eto ed \<noteq> endName" and rest: "\<forall>ed\<in>set es. eto ed \<noteq> endName"
    by simp_all
  show ?case
  proof (cases "improves p cur best ed")
    case True
    have "\<forall>e\<in>set (pq @ [extendNode cur ed]).
            node e \<noteq> endName \<and> (best(eto ed \<mapsto> stepCost (cost cur) ed)) (node e) \<noteq> None"
      using Cons.prems(1) ne by (auto simp: extendNode_def)
    from Cons.IH [OF this rest] True show ?thesis
      by (simp only: foldl_Cons relax_eq if_True)
  next
    case False
    from Cons.IH [OF Cons.prems(1) rest] False show ?thesis
      by (simp only: foldl_Cons relax_eq if_False)
  qed
qed

lemma search_only_null:
  "search adj p endName pq best = Some y \<Longrightarrow> endName \<notin> targets adj \<Longrightarrow>
   \<forall>e\<in>set pq. node e \<noteq> endName \<and> best (node e) \<noteq> None \<Longrightarrow> y = Null"
proof (induction rule: search.raw_induct [rotated 1, consumes 1, case_names step])
  case (step search adj p endName pq best y)
  note nt = \<open>endName \<notin> targets adj\<close>
    and inv = \<open>\<forall>e\<in>set pq. node e \<noteq> endName \<and> best (node e) \<noteq> None\<close>
  show ?case
  proof (cases "sort_pq p pq")
    case Nil
    with step.hyps show ?thesis by simp
  next
    case (Cons current rest)
    have cur: "node current \<noteq> endName" "best (node current) \<noteq> None"
      and rest: "\<forall>e\<in>set rest. node e \<noteq> endName \<and> best (node e) \<noteq> None"
      using inv set_sort_pq [of p pq] Cons by auto
    from cur(2) obtain currentBest where cb: "best (node current) = Some currentBest" by blast
    show ?thesis
    proof (cases "jlt (Fin 0) (cmpCost p (cost current) currentBest)")
      case True
      with step.hyps Cons cb have "search adj p endName rest best = Some y" by simp
      from step.IH [OF this nt rest] show ?thesis .
    next
      case False
      obtain pq1 best1 where f:
        "foldl (relax p current) (rest, best) (edges_at adj (node current)) = (pq1, best1)"
        by (cases "foldl (relax p current) (rest, best) (edges_at adj (node current))")
      have "\<forall>ed\<in>set (edges_at adj (node current)). eto ed \<noteq> endName"
        using nt by (auto simp: targets_def)
      from foldl_relax_nodes [OF rest this, of p current] f
      have inv1: "\<forall>e\<in>set pq1. node e \<noteq> endName \<and> best1 (node e) \<noteq> None" by simp
      from step.hyps Cons cb False cur(1) f have "search adj p endName pq1 best1 = Some y"
        by simp
      from step.IH [OF this nt inv1] show ?thesis .
    qed
  qed
qed

lemma search_isolated_start:
  assumes "edges_at adj start = []" "start \<noteq> endName"
  shows "search adj p endName [\<lparr>node = start, path = [start], legs = [], cost = zeroCost\<rparr>]
           (initBest stopsArr start) = Some Null"
proof -
  have ns: "\<not> jlt (Fin 0) (cmpCost p zeroCost zeroCost)"
    by (simp add: cmp_gt_finite zeroCost_finite)
  have "search adj p endName [\<lparr>node = start, path = [start], legs = [], cost = zeroCost\<rparr>]
          (initBest stopsArr start) = search adj p endName [] (initBest stopsArr start)"
    by (subst search.simps) (simp add: initBest_apply ns assms)
  also have "\<dots> = Some Null"
    by (subst search.simps) simp
  finally show ?thesis .
qed

text \<open>
  C6, as the code has it. When the start name differs from the end name and one of the
  two is not the name of a stop, \<open>findBestPath\<close> returns no result: whatever it
  returns is \<^verbatim>\<open>null\<close>. And it does return \<^verbatim>\<open>null\<close> when the start name is the
  absent one, or when no fare and no declared distance is negative.
\<close>

theorem findBestPath_absent_endpoint:
  assumes "start \<noteq> endName"
    and "start \<notin> name ` set stopsArr \<or> endName \<notin> name ` set stopsArr"
  shows "(\<forall>y. findBestPath stopsArr routesArr start endName p = Some y \<longrightarrow> y = Null) \<and>
         (start \<notin> name ` set stopsArr \<or> nonneg_routes routesArr \<longrightarrow>
            findBestPath stopsArr routesArr start endName p = Some Null)"
proof (cases "start \<in> name ` set stopsArr")
  case False
  then have "edges_at (buildAdj stopsArr routesArr) start = []"
    by (rule edges_at_absent)
  from search_isolated_start [OF this assms(1)] assms(1) show ?thesis
    by (simp add: findBestPath_def)
next
  case True
  with assms(2) have ea: "endName \<notin> name ` set stopsArr" by blast
  then have nt: "endName \<notin> targets (buildAdj stopsArr routesArr)"
    using targets_buildAdj [of stopsArr routesArr] by blast
  have "y = Null" if "findBestPath stopsArr routesArr start endName p = Some y" for y
  proof -
    from that assms(1) have "search (buildAdj stopsArr routesArr) p endName
        [\<lparr>node = start, path = [start], legs = [], cost = zeroCost\<rparr>] (initBest stopsArr start)
        = Some y"
      by (simp add: findBestPath_def)
    from search_only_null [OF this nt] assms(1) show ?thesis
      by (simp add: initBest_apply)
  qed
  moreover have "findBestPath stopsArr routesArr start endName p = Some Null"
    if "nonneg_routes routesArr"
    using findBestPath_total [OF that, of stopsArr start endName p] assms(1) ea by auto
  ultimately show ?thesis using True by blast
qed

theorem findBestPath_absent_endpoint_witness:
  "''A'' \<noteq> ''Z'' \<and> ''Z'' \<notin> name ` set scenario_stops \<and>
   findBestPath scenario_stops scenario_routes ''A'' ''Z'' PFare = Some Null \<and>
   findBestPath scenario_stops scenario_routes ''Z'' ''A'' PStops = Some Null"
proof -
  have z: "''Z'' \<notin> name ` set scenario_stops" by (simp add: scenario_stops_def)
  have "''A'' \<noteq> ''Z''" by simp
  from findBestPath_absent_endpoint [OF this, of scenario_stops scenario_routes PFare]
    findBestPath_absent_endpoint [OF this [symmetric], of scenario_stops scenario_routes PStops]
    z scenario_nonneg
  show ?thesis by simp
qed

text \<open>
  When the start and the end are the same absent name, the guard at the top returns the
  one-stop result, not \<^verbatim>\<open>null\<close>.
\<close>

theorem findBestPath_absent_same_counterexample:
  "''Z'' \<notin> name ` set scenario_stops \<and>
   findBestPath scenario_stops scenario_routes ''Z'' ''Z'' PFare =
     Some (Found \<lparr>rpath = [''Z''], rlegs = [], totalFare = Fin 0, totalDistance = Fin 0,
                   totalStops = Fin 0\<rparr>)"
  by (simp add: scenario_stops_def findBestPath_def)


section \<open>Rounded sums\<close>

text \<open>
  The numbers of the program are IEEE 754 doubles, and \<^verbatim>\<open>+\<close> gives the double nearest to
  the exact sum, a tie going to the even significand. \<open>round_double\<close> is this rounding:
  \<open>binade x\<close> is the exponent \<open>e\<close> with \<open>2\<^sup>e \<le> \<bar>x\<bar> < 2\<^sup>e\<^sup>+\<^sup>1\<close>, taken no lower than -1022
  (below it the doubles are subnormal and evenly spaced), one unit in the last place is
  \<open>2\<^sup>e\<^sup>-\<^sup>5\<^sup>2\<close>, and a rounded magnitude of \<open>2\<^sup>1\<^sup>0\<^sup>2\<^sup>4\<close> or more is an infinity. The sign of a
  zero is not modelled.
\<close>

definition pow2 :: "int \<Rightarrow> real" where
  "pow2 e = (if 0 \<le> e then 2 ^ nat e else 1 / 2 ^ nat (- e))"

text \<open>The nearest integer, a tie going to the even one.\<close>

definition rne :: "real \<Rightarrow> int" where
  "rne q =
     (let n = \<lfloor>q\<rfloor>; r = q - of_int n
      in if r < 1 / 2 then n else if 1 / 2 < r then n + 1 else if even n then n else n + 1)"

definition binade :: "real \<Rightarrow> int" where
  "binade x = \<lfloor>log 2 \<bar>x\<bar>\<rfloor>"

definition round_double :: "real \<Rightarrow> jsnum" where
  "round_double x =
     (if x = 0 then Fin 0
      else (let e = max (binade x) (- 1022);
                u = pow2 (e - 52);
                y = u * of_int (rne (x / u))
            in if 2 ^ 1024 \<le> \<bar>y\<bar> then (if 0 < x then PInf else NInf) else Fin y))"

text \<open>\<^verbatim>\<open>a + b\<close> on doubles.\<close>

definition dadd :: "jsnum \<Rightarrow> jsnum \<Rightarrow> jsnum" where
  "dadd a b = (case (a, b) of (Fin x, Fin y) \<Rightarrow> round_double (x + y) | _ \<Rightarrow> jadd a b)"

text \<open>
  The search once more, with the addition it uses as a parameter: the loop body, the loop
  and the function are those of section \<open>The search\<close> with \<open>add\<close> in the place of
  \<open>jadd\<close>. The comparison \<open>cmpCost\<close> is left as it is: it subtracts two doubles, the
  rounded difference of two doubles has the sign of the exact difference, and the sort and
  the two tests of the loop read only the sign.
\<close>

definition relax_with ::
  "(jsnum \<Rightarrow> jsnum \<Rightarrow> jsnum) \<Rightarrow> priority \<Rightarrow> Node \<Rightarrow> Node list \<times> (string \<rightharpoonup> Cost) \<Rightarrow> Edge \<Rightarrow>
   Node list \<times> (string \<rightharpoonup> Cost)" where
  "relax_with add p current st edge =
     (case st of (pq, best) \<Rightarrow>
        (let nextName = eto edge;
             newCost = \<lparr>fare = add (fare (cost current)) (Fin (efare edge)),
                        stops = add (stops (cost current)) (Fin 1),
                        distance = add (distance (cost current)) (Fin (edistance edge))\<rparr>;
             bestForNext = (case best nextName of Some c \<Rightarrow> c | None \<Rightarrow> infCost)
         in if jlt (cmpCost p newCost bestForNext) (Fin 0)
            then (let newLeg = \<lparr>lfrom = node current, lto = nextName,
                                 lfare = efare edge, ldistance = edistance edge\<rparr>
                  in (pq @ [\<lparr>node = nextName, path = path current @ [nextName],
                              legs = legs current @ [newLeg], cost = newCost\<rparr>],
                      best(nextName \<mapsto> newCost)))
            else (pq, best)))"

partial_function (option) search_with ::
  "(jsnum \<Rightarrow> jsnum \<Rightarrow> jsnum) \<Rightarrow> (string \<rightharpoonup> Edge list) \<Rightarrow> priority \<Rightarrow> string \<Rightarrow> Node list \<Rightarrow>
   (string \<rightharpoonup> Cost) \<Rightarrow> outcome option" where
  "search_with add adj p endName pq best =
     (case sort_pq p pq of
        [] \<Rightarrow> Some Null
      | current # rest \<Rightarrow>
         (case best (node current) of
            None \<Rightarrow> Some TypeError
          | Some currentBest \<Rightarrow>
             if jlt (Fin 0) (cmpCost p (cost current) currentBest)
             then search_with add adj p endName rest best
             else if node current = endName then
               Some (Found \<lparr>rpath = path current, rlegs = legs current,
                             totalFare = fare (cost current),
                             totalDistance = distance (cost current),
                             totalStops = stops (cost current)\<rparr>)
             else
               (case foldl (relax_with add p current) (rest, best) (edges_at adj (node current)) of
                  (pq', best') \<Rightarrow> search_with add adj p endName pq' best')))"

definition findBestPath_with ::
  "(jsnum \<Rightarrow> jsnum \<Rightarrow> jsnum) \<Rightarrow> Stop list \<Rightarrow> Route list \<Rightarrow> string \<Rightarrow> string \<Rightarrow> priority \<Rightarrow>
   outcome option" where
  "findBestPath_with add stopsArr routesArr start endName p =
     (if start = endName then
        Some (Found \<lparr>rpath = [start], rlegs = [], totalFare = Fin 0, totalDistance = Fin 0,
                      totalStops = Fin 0\<rparr>)
      else
        search_with add (buildAdj stopsArr routesArr) p endName
          [\<lparr>node = start, path = [start], legs = [], cost = zeroCost\<rparr>]
          (initBest stopsArr start))"

text \<open>
  The (fare, leg count, distance) triple of a list of legs, summed as the program sums the
  cost of a frontier record: from 0, leg by leg.
\<close>

definition legsCost_with :: "(jsnum \<Rightarrow> jsnum \<Rightarrow> jsnum) \<Rightarrow> RouteLeg list \<Rightarrow> Cost" where
  "legsCost_with add ls =
     foldl (\<lambda>c l. \<lparr>fare = add (fare c) (Fin (lfare l)), stops = add (stops c) (Fin 1),
                     distance = add (distance c) (Fin (ldistance l))\<rparr>) zeroCost ls"

text \<open>
  Seven routes with fares 0.3, 0.2, 0.1 along \<open>S, P1, P2, X\<close> (10 km each), fares
  0.1, 0.2, 0.3 along \<open>S, Q1, Q2, X\<close> (1 km each), and fare 0.5 from \<open>X\<close> to \<open>T\<close>
  (1 km). The fares are the doubles that the decimal literals denote.
\<close>

definition d01 :: real where
  "d01 = 3602879701896397 / 36028797018963968"

definition d02 :: real where
  "d02 = 3602879701896397 / 18014398509481984"

definition d03 :: real where
  "d03 = 5404319552844595 / 18014398509481984"

definition d05 :: real where
  "d05 = 1 / 2"

definition d11 :: real where
  "d11 = 2476979795053773 / 2251799813685248"

definition rounding_stops :: "Stop list" where
  "rounding_stops = [\<lparr>name = ''S'', coords = (0, 0)\<rparr>, \<lparr>name = ''P1'', coords = (0, 1)\<rparr>,
      \<lparr>name = ''P2'', coords = (0, 2)\<rparr>, \<lparr>name = ''Q1'', coords = (0, 3)\<rparr>,
      \<lparr>name = ''Q2'', coords = (0, 4)\<rparr>, \<lparr>name = ''X'', coords = (0, 5)\<rparr>,
      \<lparr>name = ''T'', coords = (0, 6)\<rparr>]"

definition rounding_routes :: "Route list" where
  "rounding_routes =
     [\<lparr>rfrom = ''S'', rto = ''P1'', rfare = d03, rdistance = Some 10\<rparr>,
      \<lparr>rfrom = ''P1'', rto = ''P2'', rfare = d02, rdistance = Some 10\<rparr>,
      \<lparr>rfrom = ''P2'', rto = ''X'', rfare = d01, rdistance = Some 10\<rparr>,
      \<lparr>rfrom = ''S'', rto = ''Q1'', rfare = d01, rdistance = Some 1\<rparr>,
      \<lparr>rfrom = ''Q1'', rto = ''Q2'', rfare = d02, rdistance = Some 1\<rparr>,
      \<lparr>rfrom = ''Q2'', rto = ''X'', rfare = d03, rdistance = Some 1\<rparr>,
      \<lparr>rfrom = ''X'', rto = ''T'', rfare = d05, rdistance = Some 1\<rparr>]"

definition via_P :: "RouteLeg list" where
  "via_P = [\<lparr>lfrom = ''S'', lto = ''P1'', lfare = d03, ldistance = 10\<rparr>,
            \<lparr>lfrom = ''P1'', lto = ''P2'', lfare = d02, ldistance = 10\<rparr>,
            \<lparr>lfrom = ''P2'', lto = ''X'', lfare = d01, ldistance = 10\<rparr>,
            \<lparr>lfrom = ''X'', lto = ''T'', lfare = d05, ldistance = 1\<rparr>]"

definition via_Q :: "RouteLeg list" where
  "via_Q = [\<lparr>lfrom = ''S'', lto = ''Q1'', lfare = d01, ldistance = 1\<rparr>,
            \<lparr>lfrom = ''Q1'', lto = ''Q2'', lfare = d02, ldistance = 1\<rparr>,
            \<lparr>lfrom = ''Q2'', lto = ''X'', lfare = d03, ldistance = 1\<rparr>,
            \<lparr>lfrom = ''X'', lto = ''T'', lfare = d05, ldistance = 1\<rparr>]"

lemma pow2_powr: "pow2 e = 2 powr of_int e"
  by (simp add: pow2_def powr_int)

lemma binade_eq:
  assumes "pow2 e \<le> \<bar>x\<bar>" "\<bar>x\<bar> < pow2 (e + 1)"
  shows "binade x = e"
proof -
  have "0 < 2 powr real_of_int e" by simp
  with assms(1) have "0 < \<bar>x\<bar>" unfolding pow2_powr by linarith
  then show ?thesis
    unfolding binade_def using assms by (simp add: floor_log_eq_powr_iff pow2_powr)
qed

text \<open>How a sum is rounded, once its binade is known.\<close>

lemma round_double_eval:
  assumes "pow2 e \<le> \<bar>x\<bar>" "\<bar>x\<bar> < pow2 (e + 1)" "- 1022 \<le> e"
    and "y = pow2 (e - 52) * of_int (rne (x / pow2 (e - 52)))"
    and "\<bar>y\<bar> < 2 ^ 1024"
  shows "round_double x = Fin y"
proof -
  have "0 < 2 powr real_of_int e" by simp
  with assms(1) have nz: "x \<noteq> 0" unfolding pow2_powr by auto
  have e: "max (binade x) (- 1022) = e"
    using binade_eq [OF assms(1,2)] assms(3) by simp
  show ?thesis
    unfolding round_double_def Let_def e using nz assms(4,5) by simp
qed

lemmas double_defs = d01_def d02_def d03_def d05_def d11_def

lemma double_literals:
  "round_double (1 / 10) = Fin d01"
  "round_double (2 / 10) = Fin d02"
  "round_double (3 / 10) = Fin d03"
  "round_double (5 / 10) = Fin d05"
  "round_double (11 / 10) = Fin d11"
  unfolding double_defs
      apply (rule round_double_eval [where e = "- 4"]; simp add: pow2_def rne_def Let_def)
     apply (rule round_double_eval [where e = "- 3"]; simp add: pow2_def rne_def Let_def)
    apply (rule round_double_eval [where e = "- 2"]; simp add: pow2_def rne_def Let_def)
   apply (rule round_double_eval [where e = "- 1"]; simp add: pow2_def rne_def Let_def)
  apply (rule round_double_eval [where e = "0"]; simp add: pow2_def rne_def Let_def)
  done

text \<open>With exact addition the search with a parameter is the search of the sections above.\<close>

lemma relax_with_jadd: "relax_with jadd = relax"
  by (intro ext) (simp add: relax_with_def relax_def)

lemma search_with_jadd_forward:
  "search adj p endName pq best = Some y \<Longrightarrow> search_with jadd adj p endName pq best = Some y"
proof (induction rule: search.raw_induct [rotated 1, consumes 1, case_names step])
  case (step search adj p endName pq best y)
  show ?case
  proof (cases "sort_pq p pq")
    case Nil
    with step.hyps show ?thesis by (subst search_with.simps) simp
  next
    case (Cons current rest)
    show ?thesis
    proof (cases "best (node current)")
      case None
      with step.hyps Cons show ?thesis by (subst search_with.simps) simp
    next
      case (Some currentBest)
      note eq = step.hyps Cons Some
      show ?thesis
      proof (cases "jlt (Fin 0) (cmpCost p (cost current) currentBest)")
        case True
        with eq have "search adj p endName rest best = Some y" by simp
        from step.IH [OF this] Cons Some True show ?thesis
          by (subst search_with.simps) simp
      next
        case False
        show ?thesis
        proof (cases "node current = endName")
          case True
          with eq False show ?thesis by (subst search_with.simps) simp
        next
          case ne: False
          obtain pq1 best1 where f:
            "foldl (relax p current) (rest, best) (edges_at adj (node current)) = (pq1, best1)"
            by (cases "foldl (relax p current) (rest, best) (edges_at adj (node current))")
          from eq False ne f have "search adj p endName pq1 best1 = Some y" by simp
          from step.IH [OF this] Cons Some False ne f show ?thesis
            by (subst search_with.simps) (simp add: relax_with_jadd)
        qed
      qed
    qed
  qed
qed

lemma search_with_jadd_backward:
  "search_with add adj p endName pq best = Some y \<Longrightarrow> add = jadd \<Longrightarrow>
   search adj p endName pq best = Some y"
proof (induction rule: search_with.raw_induct [rotated 1, consumes 1, case_names step])
  case (step search_with add adj p endName pq best y)
  note add = \<open>add = jadd\<close>
  show ?case
  proof (cases "sort_pq p pq")
    case Nil
    with step.hyps show ?thesis by (subst search.simps) simp
  next
    case (Cons current rest)
    show ?thesis
    proof (cases "best (node current)")
      case None
      with step.hyps Cons show ?thesis by (subst search.simps) simp
    next
      case (Some currentBest)
      note eq = step.hyps Cons Some
      show ?thesis
      proof (cases "jlt (Fin 0) (cmpCost p (cost current) currentBest)")
        case True
        with eq have "search_with add adj p endName rest best = Some y" by simp
        from step.IH [OF this add] Cons Some True show ?thesis
          by (subst search.simps) simp
      next
        case False
        show ?thesis
        proof (cases "node current = endName")
          case True
          with eq False show ?thesis by (subst search.simps) simp
        next
          case ne: False
          obtain pq1 best1 where f:
            "foldl (relax p current) (rest, best) (edges_at adj (node current)) = (pq1, best1)"
            by (cases "foldl (relax p current) (rest, best) (edges_at adj (node current))")
          from eq False ne f add have "search_with add adj p endName pq1 best1 = Some y"
            by (simp add: relax_with_jadd)
          from step.IH [OF this add] Cons Some False ne f show ?thesis
            by (subst search.simps) simp
        qed
      qed
    qed
  qed
qed

lemma search_with_jadd: "search_with jadd adj p endName pq best = search adj p endName pq best"
proof (cases "search adj p endName pq best")
  case (Some y)
  then show ?thesis by (simp add: search_with_jadd_forward)
next
  case None
  show ?thesis
  proof (cases "search_with jadd adj p endName pq best")
    case None
    with \<open>search adj p endName pq best = None\<close> show ?thesis by simp
  next
    case (Some y)
    from search_with_jadd_backward [OF this refl] \<open>search adj p endName pq best = None\<close>
    show ?thesis by simp
  qed
qed

lemma findBestPath_with_jadd: "findBestPath_with jadd = findBestPath"
  by (intro ext) (simp add: findBestPath_with_def findBestPath_def search_with_jadd)

text \<open>
  The sums that the search forms on the seven routes, each rounded as above. The first
  three fares of either branch have the same exact sum; rounded leg by leg they give 0.6
  along \<open>P1, P2\<close> and 0.6000000000000001 along \<open>Q1, Q2\<close>, and adding 0.5 to either gives
  1.1.
\<close>

(* 0 + 0.1 = 0.1 *)
lemma dadd_01:
  "dadd (Fin (0)) (Fin (3602879701896397 / 36028797018963968)) =
     Fin (3602879701896397 / 36028797018963968)"
  unfolding dadd_def prod.case jsnum.case
  by (rule round_double_eval [where e = "- 4"]) (simp_all add: pow2_def rne_def Let_def)

(* 0 + 0.3 = 0.3 *)
lemma dadd_02:
  "dadd (Fin (0)) (Fin (5404319552844595 / 18014398509481984)) =
     Fin (5404319552844595 / 18014398509481984)"
  unfolding dadd_def prod.case jsnum.case
  by (rule round_double_eval [where e = "- 2"]) (simp_all add: pow2_def rne_def Let_def)

(* 0 + 1 = 1 *)
lemma dadd_03:
  "dadd (Fin (0)) (Fin (1)) =
     Fin (1)"
  unfolding dadd_def prod.case jsnum.case
  by (rule round_double_eval [where e = "0"]) (simp_all add: pow2_def rne_def Let_def)

(* 0 + 10 = 10 *)
lemma dadd_04:
  "dadd (Fin (0)) (Fin (10)) =
     Fin (10)"
  unfolding dadd_def prod.case jsnum.case
  by (rule round_double_eval [where e = "3"]) (simp_all add: pow2_def rne_def Let_def)

(* 0.1 + 0.1 = 0.2 *)
lemma dadd_05:
  "dadd (Fin (3602879701896397 / 36028797018963968)) (Fin (3602879701896397 / 36028797018963968)) =
     Fin (3602879701896397 / 18014398509481984)"
  unfolding dadd_def prod.case jsnum.case
  by (rule round_double_eval [where e = "- 3"]) (simp_all add: pow2_def rne_def Let_def)

(* 0.1 + 0.2 = 0.30000000000000004 *)
lemma dadd_06:
  "dadd (Fin (3602879701896397 / 36028797018963968)) (Fin (3602879701896397 / 18014398509481984)) =
     Fin (1351079888211149 / 4503599627370496)"
  unfolding dadd_def prod.case jsnum.case
  by (rule round_double_eval [where e = "- 2"]) (simp_all add: pow2_def rne_def Let_def)

(* 0.3 + 0.2 = 0.5 *)
lemma dadd_07:
  "dadd (Fin (5404319552844595 / 18014398509481984)) (Fin (3602879701896397 / 18014398509481984)) =
     Fin (1 / 2)"
  unfolding dadd_def prod.case jsnum.case
  by (rule round_double_eval [where e = "- 1"]) (simp_all add: pow2_def rne_def Let_def)

(* 0.3 + 0.3 = 0.6 *)
lemma dadd_08:
  "dadd (Fin (5404319552844595 / 18014398509481984)) (Fin (5404319552844595 / 18014398509481984)) =
     Fin (5404319552844595 / 9007199254740992)"
  unfolding dadd_def prod.case jsnum.case
  by (rule round_double_eval [where e = "- 1"]) (simp_all add: pow2_def rne_def Let_def)

(* 0.30000000000000004 + 0.2 = 0.5 *)
lemma dadd_09:
  "dadd (Fin (1351079888211149 / 4503599627370496)) (Fin (3602879701896397 / 18014398509481984)) =
     Fin (1 / 2)"
  unfolding dadd_def prod.case jsnum.case
  by (rule round_double_eval [where e = "- 1"]) (simp_all add: pow2_def rne_def Let_def)

(* 0.30000000000000004 + 0.3 = 0.6000000000000001 *)
lemma dadd_10:
  "dadd (Fin (1351079888211149 / 4503599627370496)) (Fin (5404319552844595 / 18014398509481984)) =
     Fin (1351079888211149 / 2251799813685248)"
  unfolding dadd_def prod.case jsnum.case
  by (rule round_double_eval [where e = "- 1"]) (simp_all add: pow2_def rne_def Let_def)

(* 0.5 + 0.1 = 0.6 *)
lemma dadd_11:
  "dadd (Fin (1 / 2)) (Fin (3602879701896397 / 36028797018963968)) =
     Fin (5404319552844595 / 9007199254740992)"
  unfolding dadd_def prod.case jsnum.case
  by (rule round_double_eval [where e = "- 1"]) (simp_all add: pow2_def rne_def Let_def)

(* 0.5 + 0.2 = 0.7 *)
lemma dadd_12:
  "dadd (Fin (1 / 2)) (Fin (3602879701896397 / 18014398509481984)) =
     Fin (3152519739159347 / 4503599627370496)"
  unfolding dadd_def prod.case jsnum.case
  by (rule round_double_eval [where e = "- 1"]) (simp_all add: pow2_def rne_def Let_def)

(* 0.6 + 0.1 = 0.7 *)
lemma dadd_13:
  "dadd (Fin (5404319552844595 / 9007199254740992)) (Fin (3602879701896397 / 36028797018963968)) =
     Fin (3152519739159347 / 4503599627370496)"
  unfolding dadd_def prod.case jsnum.case
  by (rule round_double_eval [where e = "- 1"]) (simp_all add: pow2_def rne_def Let_def)

(* 0.6 + 0.3 = 0.8999999999999999 *)
lemma dadd_14:
  "dadd (Fin (5404319552844595 / 9007199254740992)) (Fin (5404319552844595 / 18014398509481984)) =
     Fin (2026619832316723 / 2251799813685248)"
  unfolding dadd_def prod.case jsnum.case
  by (rule round_double_eval [where e = "- 1"]) (simp_all add: pow2_def rne_def Let_def)

(* 0.6 + 0.5 = 1.1 *)
lemma dadd_15:
  "dadd (Fin (5404319552844595 / 9007199254740992)) (Fin (1 / 2)) =
     Fin (2476979795053773 / 2251799813685248)"
  unfolding dadd_def prod.case jsnum.case
  by (rule round_double_eval [where e = "0"]) (simp_all add: pow2_def rne_def Let_def)

(* 0.6000000000000001 + 0.5 = 1.1 *)
lemma dadd_16:
  "dadd (Fin (1351079888211149 / 2251799813685248)) (Fin (1 / 2)) =
     Fin (2476979795053773 / 2251799813685248)"
  unfolding dadd_def prod.case jsnum.case
  by (rule round_double_eval [where e = "0"]) (simp_all add: pow2_def rne_def Let_def)

(* 1 + 1 = 2 *)
lemma dadd_17:
  "dadd (Fin (1)) (Fin (1)) =
     Fin (2)"
  unfolding dadd_def prod.case jsnum.case
  by (rule round_double_eval [where e = "1"]) (simp_all add: pow2_def rne_def Let_def)

(* 2 + 1 = 3 *)
lemma dadd_18:
  "dadd (Fin (2)) (Fin (1)) =
     Fin (3)"
  unfolding dadd_def prod.case jsnum.case
  by (rule round_double_eval [where e = "1"]) (simp_all add: pow2_def rne_def Let_def)

(* 3 + 1 = 4 *)
lemma dadd_19:
  "dadd (Fin (3)) (Fin (1)) =
     Fin (4)"
  unfolding dadd_def prod.case jsnum.case
  by (rule round_double_eval [where e = "2"]) (simp_all add: pow2_def rne_def Let_def)

(* 10 + 10 = 20 *)
lemma dadd_20:
  "dadd (Fin (10)) (Fin (10)) =
     Fin (20)"
  unfolding dadd_def prod.case jsnum.case
  by (rule round_double_eval [where e = "4"]) (simp_all add: pow2_def rne_def Let_def)

(* 20 + 10 = 30 *)
lemma dadd_21:
  "dadd (Fin (20)) (Fin (10)) =
     Fin (30)"
  unfolding dadd_def prod.case jsnum.case
  by (rule round_double_eval [where e = "4"]) (simp_all add: pow2_def rne_def Let_def)

(* 30 + 1 = 31 *)
lemma dadd_22:
  "dadd (Fin (30)) (Fin (1)) =
     Fin (31)"
  unfolding dadd_def prod.case jsnum.case
  by (rule round_double_eval [where e = "4"]) (simp_all add: pow2_def rne_def Let_def)

(* 30 + 10 = 40 *)
lemma dadd_23:
  "dadd (Fin (30)) (Fin (10)) =
     Fin (40)"
  unfolding dadd_def prod.case jsnum.case
  by (rule round_double_eval [where e = "5"]) (simp_all add: pow2_def rne_def Let_def)

lemmas dadd_sums =
  dadd_01 dadd_02 dadd_03 dadd_04 dadd_05 dadd_06 dadd_07 dadd_08 dadd_09 dadd_10 dadd_11
  dadd_12 dadd_13 dadd_14 dadd_15 dadd_16 dadd_17 dadd_18 dadd_19 dadd_20 dadd_21 dadd_22
  dadd_23

text \<open>
  In exact arithmetic the two branches cost the same fare at \<open>X\<close>, the shorter one
  replaces the longer, and the search returns it.
\<close>

lemma rounding_routes_exact:
  "findBestPath rounding_stops rounding_routes ''S'' ''T'' PFare =
     Some (Found \<lparr>rpath = [''S'', ''Q1'', ''Q2'', ''X'', ''T''], rlegs = via_Q,
       totalFare = Fin (d01 + d02 + d03 + d05), totalDistance = Fin 4, totalStops = Fin 4\<rparr>)"
  by (simp add: rounding_stops_def rounding_routes_def via_Q_def double_defs search_eval_simps)

text \<open>
  C1 does not hold of the program. With the sums rounded as doubles, on seven routes
  whose fares and distances are all positive, \<open>findBestPath\<close> with priority fare returns
  the path \<open>S, P1, P2, X, T\<close> with triple (1.1, 4, 31). At \<open>X\<close> the record that came
  over \<open>Q1, Q2\<close> has the larger rounded fare and is not kept. Yet the walk
  \<open>S, Q1, Q2, X, T\<close> of the same graph, its cost summed the same way, has triple
  (1.1, 4, 4): the same fare, the same number of legs and a strictly smaller distance.
  Summed exactly, the legs of the walk also cost the same fare as the legs of the
  returned path, over a strictly smaller distance.
\<close>

theorem findBestPath_rounded_not_optimal:
  "nonneg_routes rounding_routes \<and>
   findBestPath_with dadd rounding_stops rounding_routes ''S'' ''T'' PFare =
     Some (Found \<lparr>rpath = [''S'', ''P1'', ''P2'', ''X'', ''T''], rlegs = via_P,
       totalFare = Fin d11, totalDistance = Fin 31, totalStops = Fin 4\<rparr>) \<and>
   is_walk (buildAdj rounding_stops rounding_routes) ''S'' via_Q ''T'' \<and>
   legsCost_with dadd via_Q = \<lparr>fare = Fin d11, stops = Fin 4, distance = Fin 4\<rparr> \<and>
   first_diff_smaller (key_seq PFare (legsCost_with dadd via_Q))
     (key_seq PFare \<lparr>fare = Fin d11, stops = Fin 4, distance = Fin 31\<rparr>) \<and>
   first_diff_smaller (key_seq PFare (legsCost via_Q)) (key_seq PFare (legsCost via_P))"
proof -
  have n: "nonneg_routes rounding_routes"
    by (simp add: nonneg_routes_def rounding_routes_def double_defs)
  have r: "findBestPath_with dadd rounding_stops rounding_routes ''S'' ''T'' PFare =
     Some (Found \<lparr>rpath = [''S'', ''P1'', ''P2'', ''X'', ''T''], rlegs = via_P,
       totalFare = Fin d11, totalDistance = Fin 31, totalStops = Fin 4\<rparr>)"
    by (simp add: rounding_stops_def rounding_routes_def via_P_def double_defs dadd_sums
          findBestPath_with_def search_with.simps edges_at_buildAdj route_edges_def
          route_distance_def coordsByName_def initBest_def relax_with_def cmpCost_def
          zeroCost_def infCost_def jneq_def jsub_def Let_def)
  have w: "is_walk (buildAdj rounding_stops rounding_routes) ''S'' via_Q ''T''"
    by (simp add: via_Q_def leg_edge_def edges_at_buildAdj route_edges_def route_distance_def
          coordsByName_def rounding_stops_def rounding_routes_def)
  have c: "legsCost_with dadd via_Q = \<lparr>fare = Fin d11, stops = Fin 4, distance = Fin 4\<rparr>"
    by (simp add: legsCost_with_def via_Q_def zeroCost_def double_defs dadd_sums)
  have "first_diff_smaller (key_seq PFare \<lparr>fare = Fin d11, stops = Fin 4, distance = Fin 4\<rparr>)
     (key_seq PFare \<lparr>fare = Fin d11, stops = Fin 4, distance = Fin 31\<rparr>)"
    by (simp add: key_seq_def jneq_def)
  moreover have "first_diff_smaller (key_seq PFare (legsCost via_Q))
     (key_seq PFare (legsCost via_P))"
    by (simp add: key_seq_def legsCost_def via_Q_def via_P_def double_defs jneq_def)
  ultimately show ?thesis using n r w c by simp
qed

section \<open>The earlier implementation\<close>

text \<open>
  \<^verbatim>\<open>src/utils/findPath.ts\<close> holds an earlier \<^verbatim>\<open>findBestPath\<close> with the fare-first
  order built in. It is modelled under the name \<open>findBestPath_hist\<close>. It looks the
  two names up before anything else, always computes the distance of a leg from the
  coordinates, walks the route list at every expansion instead of building an adjacency
  map, and its result has no \<^verbatim>\<open>totalStops\<close> field.
\<close>

definition haversineDistance :: "real \<times> real \<Rightarrow> real \<times> real \<Rightarrow> real" where
  "haversineDistance a b =
     (let R = 6371;
          lat1 = toRad (fst a); lon1 = toRad (snd a);
          lat2 = toRad (fst b); lon2 = toRad (snd b);
          dLat = lat2 - lat1;
          dLon = lon2 - lon1;
          aa = (sin (dLat / 2))\<^sup>2 + cos lat1 * cos lat2 * (sin (dLon / 2))\<^sup>2;
          c = 2 * Math_atan2 (sqrt aa) (sqrt (1 - aa))
      in R * c)"

definition isBetter :: "Cost \<Rightarrow> Cost \<Rightarrow> bool" where
  "isBetter a b =
     (if jneq (fare a) (fare b) then jlt (fare a) (fare b)
      else if jneq (stops a) (stops b) then jlt (stops a) (stops b)
      else jlt (distance a) (distance b))"

record HNode =
  stop :: string
  hpath :: "string list"
  hlegs :: "RouteLeg list"
  hfare :: jsnum
  stopsCount :: jsnum
  hdistance :: jsnum

record HPathResult =
  hrpath :: "string list"
  hrlegs :: "RouteLeg list"
  htotalFare :: jsnum
  htotalDistance :: jsnum

datatype houtcome = HFound HPathResult | HNull | HTypeError

definition hist_cmp :: "HNode \<Rightarrow> HNode \<Rightarrow> jsnum" where
  "hist_cmp A B =
     (if jneq (hfare A) (hfare B) then jsub (hfare A) (hfare B)
      else if jneq (stopsCount A) (stopsCount B) then jsub (stopsCount A) (stopsCount B)
      else jsub (hdistance A) (hdistance B))"

fun insort_hnode :: "HNode \<Rightarrow> HNode list \<Rightarrow> HNode list" where
  "insort_hnode x [] = [x]"
| "insort_hnode x (y # ys) =
     (if jlt (Fin 0) (hist_cmp x y) then y # insort_hnode x ys else x # y # ys)"

fun sort_hpq :: "HNode list \<Rightarrow> HNode list" where
  "sort_hpq [] = []"
| "sort_hpq (x # xs) = insort_hnode x (sort_hpq xs)"

text \<open>
  The forward and the reverse block of the loop over the routes do the same with the
  names exchanged: \<open>try_neighbor\<close> is that common part, from the candidate cost to the
  push. \<^verbatim>\<open>bestCost.get(neighbor)!\<close> on a missing key makes \<^verbatim>\<open>isBetter\<close> throw:
  \<open>None\<close>. A \<^verbatim>\<open>continue\<close> in the forward block skips the reverse block too.
\<close>

definition try_neighbor ::
  "HNode \<Rightarrow> string \<Rightarrow> RouteLeg \<Rightarrow> HNode list \<times> (string \<rightharpoonup> Cost) \<Rightarrow>
     (HNode list \<times> (string \<rightharpoonup> Cost)) option" where
  "try_neighbor current neighbor leg st =
     (case st of (pq, bestCost) \<Rightarrow>
        (let newFare = jadd (hfare current) (Fin (lfare leg));
             newStops = jadd (stopsCount current) (Fin 1);
             newDist = jadd (hdistance current) (Fin (ldistance leg));
             candidate = \<lparr>fare = newFare, stops = newStops, distance = newDist\<rparr>
         in case bestCost neighbor of
              None \<Rightarrow> None
            | Some bestForNeighbor \<Rightarrow>
                if isBetter candidate bestForNeighbor
                then Some (pq @ [\<lparr>stop = neighbor, hpath = hpath current @ [neighbor],
                                   hlegs = hlegs current @ [leg], hfare = newFare,
                                   stopsCount = newStops, hdistance = newDist\<rparr>],
                           bestCost(neighbor \<mapsto> candidate))
                else Some st))"

definition reverse_block ::
  "(string \<rightharpoonup> real \<times> real) \<Rightarrow> HNode \<Rightarrow> Route \<Rightarrow> HNode list \<times> (string \<rightharpoonup> Cost) \<Rightarrow>
     (HNode list \<times> (string \<rightharpoonup> Cost)) option" where
  "reverse_block coordsMap current r st =
     (if rto r = stop current then
        (case coordsMap (rto r) of
           None \<Rightarrow> Some st
         | Some fromCoords \<Rightarrow>
            (case coordsMap (rfrom r) of
               None \<Rightarrow> Some st
             | Some toCoords \<Rightarrow>
                try_neighbor current (rfrom r)
                  \<lparr>lfrom = rto r, lto = rfrom r, lfare = rfare r,
                   ldistance = haversineDistance fromCoords toCoords\<rparr> st))
      else Some st)"

definition expand_route ::
  "(string \<rightharpoonup> real \<times> real) \<Rightarrow> HNode \<Rightarrow> Route \<Rightarrow> HNode list \<times> (string \<rightharpoonup> Cost) \<Rightarrow>
     (HNode list \<times> (string \<rightharpoonup> Cost)) option" where
  "expand_route coordsMap current r st =
     (if rfrom r = stop current then
        (case coordsMap (rfrom r) of
           None \<Rightarrow> Some st
         | Some fromCoords \<Rightarrow>
            (case coordsMap (rto r) of
               None \<Rightarrow> Some st
             | Some toCoords \<Rightarrow>
                (case try_neighbor current (rto r)
                        \<lparr>lfrom = rfrom r, lto = rto r, lfare = rfare r,
                         ldistance = haversineDistance fromCoords toCoords\<rparr> st of
                   None \<Rightarrow> None
                 | Some st1 \<Rightarrow> reverse_block coordsMap current r st1)))
      else reverse_block coordsMap current r st)"

fun expand_routes ::
  "(string \<rightharpoonup> real \<times> real) \<Rightarrow> HNode \<Rightarrow> Route list \<Rightarrow> HNode list \<times> (string \<rightharpoonup> Cost) \<Rightarrow>
     (HNode list \<times> (string \<rightharpoonup> Cost)) option" where
  "expand_routes coordsMap current [] st = Some st"
| "expand_routes coordsMap current (r # rs) st =
     (case expand_route coordsMap current r st of
        None \<Rightarrow> None
      | Some st1 \<Rightarrow> expand_routes coordsMap current rs st1)"

text \<open>
  The test that drops a record taken from the frontier:
  \<^verbatim>\<open>if (!isBetter(cur, best) && !same) { if (!same) continue; }\<close>, where \<open>same\<close> is
  the comparison of the three fields with \<^verbatim>\<open>===\<close>.
\<close>

definition superseded :: "HNode \<Rightarrow> Cost \<Rightarrow> bool" where
  "superseded current currentBest =
     (let same = (\<not> jneq (hfare current) (fare currentBest) \<and>
                  \<not> jneq (stopsCount current) (stops currentBest) \<and>
                  \<not> jneq (hdistance current) (distance currentBest))
      in (\<not> isBetter \<lparr>fare = hfare current, stops = stopsCount current,
                         distance = hdistance current\<rparr> currentBest \<and> \<not> same) \<and> \<not> same)"

partial_function (option) search_hist ::
  "(string \<rightharpoonup> real \<times> real) \<Rightarrow> Route list \<Rightarrow> string \<Rightarrow> HNode list \<Rightarrow> (string \<rightharpoonup> Cost) \<Rightarrow>
     houtcome option" where
  "search_hist coordsMap routesArr endName pq bestCost =
     (case sort_hpq pq of
        [] \<Rightarrow> Some HNull
      | current # rest \<Rightarrow>
         (case bestCost (stop current) of
            None \<Rightarrow> Some HTypeError
          | Some currentBest \<Rightarrow>
             if superseded current currentBest
             then search_hist coordsMap routesArr endName rest bestCost
             else if stop current = endName then
               Some (HFound \<lparr>hrpath = hpath current, hrlegs = hlegs current,
                              htotalFare = hfare current, htotalDistance = hdistance current\<rparr>)
             else
               (case expand_routes coordsMap current routesArr (rest, bestCost) of
                  None \<Rightarrow> Some HTypeError
                | Some (pq', bestCost') \<Rightarrow>
                    search_hist coordsMap routesArr endName pq' bestCost')))"

definition findBestPath_hist :: "Stop list \<Rightarrow> Route list \<Rightarrow> string \<Rightarrow> string \<Rightarrow> houtcome option" where
  "findBestPath_hist stopsArr routesArr start endName =
     (let coordsMap = coordsByName stopsArr
      in if coordsMap start = None \<or> coordsMap endName = None then Some HNull
         else search_hist coordsMap routesArr endName
                [\<lparr>stop = start, hpath = [start], hlegs = [], hfare = Fin 0, stopsCount = Fin 0,
                  hdistance = Fin 0\<rparr>]
                (initBest stopsArr start))"


section \<open>The two implementations compared\<close>

text \<open>
  A record of the generalized frontier as a record of the earlier one, and a result
  without its \<^verbatim>\<open>totalStops\<close>.
\<close>

definition to_h :: "Node \<Rightarrow> HNode" where
  "to_h e = \<lparr>stop = node e, hpath = path e, hlegs = legs e, hfare = fare (cost e),
             stopsCount = stops (cost e), hdistance = distance (cost e)\<rparr>"













text \<open>
  On a cost whose distance is \<^verbatim>\<open>NaN\<close> the two tests part: a record that holds the very
  cost recorded for its stop is dropped by the earlier implementation, for which
  \<^verbatim>\<open>NaN === NaN\<close> is false, and kept by the generalized one, for which \<^verbatim>\<open>NaN > 0\<close> is
  false. The edge distances of this model are numbers, so no record of its frontier has
  such a cost; the program has one when \<^verbatim>\<open>haversineDistance\<close> returns \<^verbatim>\<open>NaN\<close>, which
  the conditions of \<open>haversine_routes\<close> on the endpoints of a route exclude.
\<close>

lemma skip_differs_at_NaN:
  "superseded (to_h \<lparr>node = n, path = ps, legs = ls,
                       cost = \<lparr>fare = Fin f, stops = Fin k, distance = NaN\<rparr>\<rparr>)
     \<lparr>fare = Fin f, stops = Fin k, distance = NaN\<rparr> \<and>
   \<not> jlt (Fin 0) (cmpCost PFare \<lparr>fare = Fin f, stops = Fin k, distance = NaN\<rparr>
                  \<lparr>fare = Fin f, stops = Fin k, distance = NaN\<rparr>)"
  by (simp add: superseded_def to_h_def isBetter_def cmpCost_def jneq_def jsub_def Let_def)




























text \<open>
  For a start that is also the end, the earlier implementation enters its loop and returns
  from the first turn, when the name is a stop.
\<close>

lemma findBestPath_hist_same_stop:
  assumes "start \<in> name ` set stopsArr"
  shows "findBestPath_hist stopsArr routesArr start start =
           Some (HFound \<lparr>hrpath = [start], hrlegs = [], htotalFare = Fin 0,
                          htotalDistance = Fin 0\<rparr>)"
proof -
  from assms have "start \<in> dom (coordsByName stopsArr)"
    by (simp add: coordsByName_dom)
  then obtain cs where cs: "coordsByName stopsArr start = Some cs" by blast
  have ns: "\<not> superseded \<lparr>stop = start, hpath = [start], hlegs = [], hfare = Fin 0,
      stopsCount = Fin 0, hdistance = Fin 0\<rparr> zeroCost"
    by (simp add: superseded_def zeroCost_def jneq_def)
  show ?thesis
    unfolding findBestPath_hist_def Let_def
    by (subst search_hist.simps) (simp add: cs initBest_apply ns)
qed











end
